theory Spec2Isabelle
  imports Main
begin

section \<open>Data model\<close>

text \<open>
  The chess engine of \<^verbatim>\<open>base.py\<close> and \<^verbatim>\<open>figures.py\<close> is object oriented:
  figures and players are compared by identity, figures sit in the cells of the table,
  and figures and the table carry lazily filled caches. The embedding therefore uses an
  explicit store. A figure is named by its address (\<open>fid\<close>), a player by its address
  (\<open>pid\<close>); the store maps addresses to the objects' fields. All figures and players
  of a state refer to the one table of that state, as in \<^verbatim>\<open>Game\<close>.

  Field names follow the source; a leading underscore, which Isabelle does not allow,
  becomes a prefix: \<^verbatim>\<open>Figure._player\<close> is \<open>f_player\<close>, \<^verbatim>\<open>Figure._position\<close> is
  \<open>f_position\<close>, \<^verbatim>\<open>Figure._available_moves\<close> is \<open>f_available_moves\<close>,
  \<^verbatim>\<open>Table._figures\<close> is \<open>t_figures\<close>, \<^verbatim>\<open>Player._figures\<close> is \<open>p_figures\<close>.
  The table, a Python list of row lists, is the field \<open>cells\<close>.
\<close>

type_synonym pos = "int \<times> int"
type_synonym fid = nat
type_synonym pid = nat

datatype error = InvalidMove | MissingFigure | AccessError | IndexError | RecursionError

datatype kind = Pawn | Rook | Bishop | Queen | Knight | King

record figure =
  kind :: kind
  f_player :: pid
  f_position :: "pos option"
  f_available_moves :: "pos set option"
  first_move :: bool

record player =
  goes_up :: bool
  name :: string
  p_figures :: "fid list option"

record table =
  cells :: "fid option list list"
  rows :: int
  columns :: int
  t_figures :: "fid list option"

record state = table +
  figs :: "fid \<Rightarrow> figure"
  players :: "pid \<Rightarrow> player"

subsection \<open>Results: a raised exception or a value, together with the state reached\<close>

type_synonym 'a m = "state \<Rightarrow> (error + 'a) \<times> state"

definition return :: "'a \<Rightarrow> 'a m" where
  "return x = (\<lambda>s. (Inr x, s))"

definition raise :: "error \<Rightarrow> 'a m" where
  "raise e = (\<lambda>s. (Inl e, s))"

definition bind :: "'a m \<Rightarrow> ('a \<Rightarrow> 'b m) \<Rightarrow> 'b m" where
  "bind c f = (\<lambda>s. case c s of (Inl e, s') \<Rightarrow> (Inl e, s') | (Inr x, s') \<Rightarrow> f x s')"

definition lift :: "(state \<Rightarrow> error + 'a) \<Rightarrow> 'a m" where
  "lift g = (\<lambda>s. (g s, s))"

definition gets :: "(state \<Rightarrow> 'a) \<Rightarrow> 'a m" where
  "gets g = (\<lambda>s. (Inr (g s), s))"

definition modify :: "(state \<Rightarrow> state) \<Rightarrow> unit m" where
  "modify g = (\<lambda>s. (Inr (), g s))"

subsection \<open>Python lists\<close>

text \<open>\<^verbatim>\<open>xs[i]\<close>: a negative index counts from the end, anything else out of range raises.\<close>

definition py_norm :: "nat \<Rightarrow> int \<Rightarrow> nat option" where
  "py_norm n i =
     (if 0 \<le> i \<and> i < int n then Some (nat i)
      else if i < 0 \<and> - int n \<le> i then Some (nat (int n + i))
      else None)"

definition py_index :: "'a list \<Rightarrow> int \<Rightarrow> error + 'a" where
  "py_index xs i = (case py_norm (length xs) i of None \<Rightarrow> Inl IndexError | Some j \<Rightarrow> Inr (xs ! j))"

text \<open>\<^verbatim>\<open>xs.index(x)\<close>: the first index holding \<open>x\<close>; \<open>None\<close> stands for ValueError.\<close>

fun py_list_index :: "'a list \<Rightarrow> 'a \<Rightarrow> nat option" where
  "py_list_index [] x = None"
| "py_list_index (y # ys) x =
     (if y = x then Some 0 else map_option Suc (py_list_index ys x))"

section \<open>Table\<close>

text \<open>
  \<^verbatim>\<open>self[:] = [[None for column in range(self.rows)] for row in range(self.columns)]\<close>:
  the outer list has one entry per element of \<^verbatim>\<open>range(self.columns)\<close>, each entry a list
  with one cell per element of \<^verbatim>\<open>range(self.rows)\<close>. A range of a negative number is empty.
\<close>

definition Table :: "int \<Rightarrow> int \<Rightarrow> table" where
  "Table r c =
     \<lparr>cells = replicate (nat c) (replicate (nat r) None), rows = r, columns = c,
      t_figures = None\<rparr>"

definition get_figure :: "state \<Rightarrow> pos \<Rightarrow> error + fid option" where
  "get_figure s p =
     (case py_index (cells s) (fst p) of
        Inl e \<Rightarrow> Inl e
      | Inr row \<Rightarrow> py_index row (snd p))"

definition set_figure :: "fid option \<Rightarrow> pos \<Rightarrow> unit m" where
  "set_figure fg p = (\<lambda>s.
     case py_norm (length (cells s)) (fst p) of
       None \<Rightarrow> (Inl IndexError, s)
     | Some i \<Rightarrow>
        (case py_norm (length (cells s ! i)) (snd p) of
           None \<Rightarrow> (Inl IndexError, s)
         | Some j \<Rightarrow> (Inr (), s\<lparr>cells := (cells s)[i := (cells s ! i)[j := fg]]\<rparr>)))"

text \<open>\<^verbatim>\<open>get_figure_position\<close>: the nested scan, rows outermost, returning at the first hit.\<close>

fun find_in_row :: "fid \<Rightarrow> fid option list \<Rightarrow> int \<Rightarrow> int option" where
  "find_in_row f [] j = None"
| "find_in_row f (x # xs) j = (if x = Some f then Some j else find_in_row f xs (j + 1))"

fun find_in_rows :: "fid \<Rightarrow> fid option list list \<Rightarrow> int \<Rightarrow> pos option" where
  "find_in_rows f [] i = None"
| "find_in_rows f (row # rs) i =
     (case find_in_row f row 0 of
        Some j \<Rightarrow> Some (i, j)
      | None \<Rightarrow> find_in_rows f rs (i + 1))"

definition get_figure_position :: "state \<Rightarrow> fid \<Rightarrow> error + pos" where
  "get_figure_position s f =
     (case find_in_rows f (cells s) 0 of None \<Rightarrow> Inl MissingFigure | Some p \<Rightarrow> Inr p)"

text \<open>The list comprehension of \<^verbatim>\<open>Table.figures\<close>: every occupied cell, row by row.\<close>

definition scan :: "fid option list list \<Rightarrow> fid list" where
  "scan cs = concat (map (List.map_filter (\<lambda>x. x)) cs)"

definition figures :: "fid list m" where
  "figures = (\<lambda>s.
     case t_figures s of
       Some l \<Rightarrow> (Inr l, s)
     | None \<Rightarrow> (Inr (scan (cells s)), s\<lparr>t_figures := Some (scan (cells s))\<rparr>))"

definition table_reset :: "unit m" where
  "table_reset = modify (\<lambda>s. s\<lparr>t_figures := None\<rparr>)"

section \<open>Figure: owner and position\<close>

definition player_of :: "state \<Rightarrow> fid \<Rightarrow> pid" where
  "player_of s f = f_player (figs s f)"

text \<open>
  The setter of \<^verbatim>\<open>Figure.player\<close> has the body \<^verbatim>\<open>self.player = player\<close>, which is a call
  of the setter itself. Python bounds the depth of the call stack and raises
  RecursionError when the bound is reached; the first argument is the number of frames
  still available. \<open>player_setter_unbounded\<close> is the same body without a bound on the
  stack, where \<open>None\<close> is the call that never returns.
\<close>

fun player_setter :: "nat \<Rightarrow> fid \<Rightarrow> pid \<Rightarrow> unit m" where
  "player_setter 0 f p = raise RecursionError"
| "player_setter (Suc d) f p = player_setter d f p"

partial_function (option) player_setter_unbounded :: "fid \<Rightarrow> pid \<Rightarrow> state \<Rightarrow> state option" where
  "player_setter_unbounded f p s = player_setter_unbounded f p s"

definition add_figure :: "nat \<Rightarrow> pid \<Rightarrow> fid \<Rightarrow> unit m" where
  "add_figure d p f = player_setter d f p"

definition add_figure_unbounded :: "pid \<Rightarrow> fid \<Rightarrow> state \<Rightarrow> state option" where
  "add_figure_unbounded p f s = player_setter_unbounded f p s"

definition set_position :: "fid \<Rightarrow> pos option \<Rightarrow> state \<Rightarrow> state" where
  "set_position f v s = s\<lparr>figs := (figs s)(f := (figs s f)\<lparr>f_position := v\<rparr>)\<rparr>"

definition set_available_moves :: "fid \<Rightarrow> pos set option \<Rightarrow> state \<Rightarrow> state" where
  "set_available_moves f v s = s\<lparr>figs := (figs s)(f := (figs s f)\<lparr>f_available_moves := v\<rparr>)\<rparr>"

definition set_first_move :: "fid \<Rightarrow> bool \<Rightarrow> state \<Rightarrow> state" where
  "set_first_move f v s = s\<lparr>figs := (figs s)(f := (figs s f)\<lparr>first_move := v\<rparr>)\<rparr>"

definition position :: "fid \<Rightarrow> pos m" where
  "position f = (\<lambda>s.
     case f_position (figs s f) of
       Some p \<Rightarrow> (Inr p, s)
     | None \<Rightarrow>
        (case get_figure_position s f of
           Inl e \<Rightarrow> (Inl e, s)
         | Inr p \<Rightarrow> (Inr p, set_position f (Some p) s)))"

definition reset :: "fid \<Rightarrow> unit m" where
  "reset f = modify (\<lambda>s. set_available_moves f None (set_position f None s))"

text \<open>\<^verbatim>\<open>[i.position for i in fs]\<close>: each read may fill a cache or raise.\<close>

fun positions :: "fid list \<Rightarrow> pos list m" where
  "positions [] = return []"
| "positions (i # t) = bind (position i) (\<lambda>q. bind (positions t) (\<lambda>qs. return (q # qs)))"

section \<open>Player: owned figures and cache reset\<close>

definition player_figures :: "pid \<Rightarrow> fid list m" where
  "player_figures p =
     bind (gets (\<lambda>s. p_figures (players s p))) (\<lambda>c.
       case c of
         Some l \<Rightarrow> return l
       | None \<Rightarrow> bind figures (\<lambda>fs. gets (\<lambda>s. filter (\<lambda>f. player_of s f = p) fs)))"

definition player_reset :: "pid \<Rightarrow> unit m" where
  "player_reset p =
     bind (modify (\<lambda>s. s\<lparr>players := (players s)(p := (players s p)\<lparr>p_figures := None\<rparr>)\<rparr>))
       (\<lambda>_. table_reset)"

section \<open>Legal moves of the figures\<close>

subsection \<open>Truncating a ray\<close>

text \<open>
  \<^verbatim>\<open>cut_before\<close> and \<^verbatim>\<open>cut_after\<close> walk through all figures of the table; a figure
  whose position is found in the current list cuts the list there: a figure of the
  moving player is cut out, a figure of the opponent is kept. ValueError of
  \<^verbatim>\<open>f.index\<close> is swallowed; MissingFigure of \<^verbatim>\<open>i.position\<close> is not.
\<close>

fun cut_before :: "pos list \<Rightarrow> fid list \<Rightarrow> pid \<Rightarrow> pos list m" where
  "cut_before f [] p = return f"
| "cut_before f (i # t) p =
     bind (position i) (\<lambda>q.
     bind (gets (\<lambda>s. player_of s i)) (\<lambda>w.
       cut_before
         (case py_list_index f q of
            None \<Rightarrow> f
          | Some s \<Rightarrow> if p = w then drop (s + 1) f else drop s f) t p))"

fun cut_after :: "pos list \<Rightarrow> fid list \<Rightarrow> pid \<Rightarrow> pos list m" where
  "cut_after f [] p = return f"
| "cut_after f (i # t) p =
     bind (position i) (\<lambda>q.
     bind (gets (\<lambda>s. player_of s i)) (\<lambda>w.
       cut_after
         (case py_list_index f q of
            None \<Rightarrow> f
          | Some s \<Rightarrow> if p = w then take s f else take (s + 1) f) t p))"

subsection \<open>Pawn\<close>

text \<open>The edge filter of the pawn: \<^verbatim>\<open>i[0] < self.table.rows and i[1] < self.table.columns\<close>.\<close>

definition clip :: "state \<Rightarrow> pos list \<Rightarrow> pos list" where
  "clip s ms = filter (\<lambda>i. fst i < rows s \<and> snd i < columns s) ms"

text \<open>\<^verbatim>\<open>for f in other_figures: try: straight_moves.remove(f.position) except ValueError: pass\<close>\<close>

fun remove_positions :: "fid list \<Rightarrow> pos list \<Rightarrow> pos list m" where
  "remove_positions [] sm = return sm"
| "remove_positions (f # fs) sm = bind (position f) (\<lambda>q. remove_positions fs (remove1 q sm))"

text \<open>
  The filter on the oblique moves reads the table at each candidate, with Python's
  indexing: a candidate with a negative coordinate reads from the far end, a candidate
  beyond the lists raises IndexError.
\<close>

fun oblique_filter :: "state \<Rightarrow> pid \<Rightarrow> pos list \<Rightarrow> error + pos list" where
  "oblique_filter s p [] = Inr []"
| "oblique_filter s p (i # is) =
     (case get_figure s i of
        Inl e \<Rightarrow> Inl e
      | Inr c \<Rightarrow>
         (case oblique_filter s p is of
            Inl e \<Rightarrow> Inl e
          | Inr r \<Rightarrow>
             Inr (case c of
                    None \<Rightarrow> r
                  | Some g \<Rightarrow> if player_of s g \<noteq> p then i # r else r)))"

definition pawn_straight :: "bool \<Rightarrow> bool \<Rightarrow> pos \<Rightarrow> pos list" where
  "pawn_straight up fm cp =
     (if up then (fst cp - 1, snd cp) # (if fm then [(fst cp - 2, snd cp)] else [])
      else (fst cp + 1, snd cp) # (if fm then [(fst cp + 2, snd cp)] else []))"

definition pawn_oblique :: "bool \<Rightarrow> pos \<Rightarrow> pos list" where
  "pawn_oblique up cp =
     (if up then [(fst cp - 1, snd cp + 1), (fst cp - 1, snd cp - 1)]
      else [(fst cp + 1, snd cp + 1), (fst cp + 1, snd cp - 1)])"

text \<open>
  Every \<^verbatim>\<open>available_moves\<close> property has the shape
  \<^verbatim>\<open>if self._available_moves is None: ...; return self._available_moves\<close>.
  The body of the \<^verbatim>\<open>if\<close> is the \<open>compute\<close> function of the class. The pawn assigns the
  cache after everything that can raise.
\<close>

definition Pawn_compute :: "fid \<Rightarrow> pos set m" where
  "Pawn_compute k =
     bind (position k) (\<lambda>cp.
     bind figures (\<lambda>other_figures.
     bind (gets (\<lambda>s. goes_up (players s (player_of s k)))) (\<lambda>up.
     bind (gets (\<lambda>s. first_move (figs s k))) (\<lambda>fm.
     bind (gets (\<lambda>s. clip s (pawn_straight up fm cp))) (\<lambda>sm.
     bind (gets (\<lambda>s. clip s (pawn_oblique up cp))) (\<lambda>om.
     bind (remove_positions other_figures sm) (\<lambda>sm'.
     bind (lift (\<lambda>s. oblique_filter s (player_of s k) om)) (\<lambda>om'.
     bind (modify (set_available_moves k (Some (set sm' \<union> set om')))) (\<lambda>_.
       return (set sm' \<union> set om'))))))))))"

definition Pawn_available_moves :: "fid \<Rightarrow> pos set m" where
  "Pawn_available_moves k =
     bind (gets (\<lambda>s. f_available_moves (figs s k))) (\<lambda>c.
       case c of Some mv \<Rightarrow> return mv | None \<Rightarrow> Pawn_compute k)"

subsection \<open>Rook, Bishop, Queen\<close>

text \<open>\<^verbatim>\<open>range(a, b)\<close> is the list \<open>[a..b - 1]\<close>, empty when \<open>b \<le> a\<close>.\<close>

definition straight_moves :: "fid \<Rightarrow> (pos list \<times> pos list \<times> pos list \<times> pos list) m" where
  "straight_moves k =
     bind (position k) (\<lambda>cp.
     bind figures (\<lambda>other_figures.
     bind (gets (\<lambda>s. player_of s k)) (\<lambda>p.
     bind (cut_before (map (\<lambda>r. (r, snd cp)) [0..fst cp - 1]) other_figures p) (\<lambda>up.
     bind (gets rows) (\<lambda>nr.
     bind (cut_after (map (\<lambda>r. (r, snd cp)) [fst cp + 1..nr - 1]) other_figures p) (\<lambda>down.
     bind (cut_before (map (\<lambda>c. (fst cp, c)) [0..snd cp - 1]) other_figures p) (\<lambda>left.
     bind (gets columns) (\<lambda>nc.
     bind (cut_after (map (\<lambda>c. (fst cp, c)) [snd cp + 1..nc - 1]) other_figures p) (\<lambda>right.
       return (up, down, left, right))))))))))"

text \<open>
  Rook, Bishop and Queen assign the empty set to the cache first and update it with the
  rays afterwards: when a ray computation raises, the cache keeps the empty set.
\<close>

definition Rook_compute :: "fid \<Rightarrow> pos set m" where
  "Rook_compute k =
     bind (modify (set_available_moves k (Some {}))) (\<lambda>_.
     bind (straight_moves k) (\<lambda>(up, down, left, right).
     bind (modify (set_available_moves k (Some (set up \<union> set down \<union> set left \<union> set right))))
       (\<lambda>_. return (set up \<union> set down \<union> set left \<union> set right))))"

definition Rook_available_moves :: "fid \<Rightarrow> pos set m" where
  "Rook_available_moves k =
     bind (gets (\<lambda>s. f_available_moves (figs s k))) (\<lambda>c.
       case c of Some mv \<Rightarrow> return mv | None \<Rightarrow> Rook_compute k)"

text \<open>The four \<^verbatim>\<open>while\<close> loops of the bishop, each started with \<open>n = 1\<close>.\<close>

function left_up_from :: "pos \<Rightarrow> int \<Rightarrow> pos list" where
  "left_up_from cp n =
     (if min (fst cp - n) (snd cp - n) \<ge> 0
      then (fst cp - n, snd cp - n) # left_up_from cp (n + 1) else [])"
  by pat_completeness auto
termination
  by (relation "measure (\<lambda>(cp, n). nat (min (fst cp - n) (snd cp - n) + 1))") auto

function left_down_from :: "int \<Rightarrow> pos \<Rightarrow> int \<Rightarrow> pos list" where
  "left_down_from nr cp n =
     (if fst cp + n < nr \<and> snd cp - n \<ge> 0
      then (fst cp + n, snd cp - n) # left_down_from nr cp (n + 1) else [])"
  by pat_completeness auto
termination
  by (relation "measure (\<lambda>(nr, cp, n). nat (snd cp - n + 1))") auto

function right_up_from :: "int \<Rightarrow> pos \<Rightarrow> int \<Rightarrow> pos list" where
  "right_up_from nc cp n =
     (if fst cp - n \<ge> 0 \<and> snd cp + n < nc
      then (fst cp - n, snd cp + n) # right_up_from nc cp (n + 1) else [])"
  by pat_completeness auto
termination
  by (relation "measure (\<lambda>(nc, cp, n). nat (fst cp - n + 1))") auto

function right_down_from :: "int \<Rightarrow> int \<Rightarrow> pos \<Rightarrow> int \<Rightarrow> pos list" where
  "right_down_from nr nc cp n =
     (if max (fst cp + n) (snd cp + n) < min nr nc
      then (fst cp + n, snd cp + n) # right_down_from nr nc cp (n + 1) else [])"
  by pat_completeness auto
termination
  by (relation "measure (\<lambda>(nr, nc, cp, n). nat (min nr nc - max (fst cp + n) (snd cp + n)))") auto

declare left_up_from.simps [simp del] left_down_from.simps [simp del]
  right_up_from.simps [simp del] right_down_from.simps [simp del]

definition oblique_moves :: "fid \<Rightarrow> (pos list \<times> pos list \<times> pos list \<times> pos list) m" where
  "oblique_moves k =
     bind (position k) (\<lambda>cp.
     bind figures (\<lambda>other_figures.
     bind (gets (\<lambda>s. player_of s k)) (\<lambda>p.
     bind (cut_after (left_up_from cp 1) other_figures p) (\<lambda>left_up.
     bind (gets rows) (\<lambda>nr.
     bind (cut_after (left_down_from nr cp 1) other_figures p) (\<lambda>left_down.
     bind (gets columns) (\<lambda>nc.
     bind (cut_after (right_up_from nc cp 1) other_figures p) (\<lambda>right_up.
     bind (cut_after (right_down_from nr nc cp 1) other_figures p) (\<lambda>right_down.
       return (left_up, left_down, right_up, right_down))))))))))"

definition Bishop_compute :: "fid \<Rightarrow> pos set m" where
  "Bishop_compute k =
     bind (modify (set_available_moves k (Some {}))) (\<lambda>_.
     bind (oblique_moves k) (\<lambda>(lu, ld, ru, rd).
     bind (modify (set_available_moves k (Some (set lu \<union> set ld \<union> set ru \<union> set rd))))
       (\<lambda>_. return (set lu \<union> set ld \<union> set ru \<union> set rd))))"

definition Bishop_available_moves :: "fid \<Rightarrow> pos set m" where
  "Bishop_available_moves k =
     bind (gets (\<lambda>s. f_available_moves (figs s k))) (\<lambda>c.
       case c of Some mv \<Rightarrow> return mv | None \<Rightarrow> Bishop_compute k)"

definition Queen_compute :: "fid \<Rightarrow> pos set m" where
  "Queen_compute k =
     bind (modify (set_available_moves k (Some {}))) (\<lambda>_.
     bind (straight_moves k) (\<lambda>(up, down, left, right).
     bind (oblique_moves k) (\<lambda>(lu, ld, ru, rd).
     bind (modify (set_available_moves k
             (Some (set up \<union> set down \<union> set left \<union> set right
                    \<union> (set lu \<union> set ld \<union> set ru \<union> set rd)))))
       (\<lambda>_. return (set up \<union> set down \<union> set left \<union> set right
                    \<union> (set lu \<union> set ld \<union> set ru \<union> set rd))))))"

definition Queen_available_moves :: "fid \<Rightarrow> pos set m" where
  "Queen_available_moves k =
     bind (gets (\<lambda>s. f_available_moves (figs s k))) (\<lambda>c.
       case c of Some mv \<Rightarrow> return mv | None \<Rightarrow> Queen_compute k)"

subsection \<open>Knight and King\<close>

text \<open>
  \<^verbatim>\<open>Knight._validate_moves\<close>. The table's figure list is read twice; the second read
  returns the list cached by the first, so \<^verbatim>\<open>other_positions\<close> is as long as
  \<^verbatim>\<open>other_figures\<close> and the index found in the one is in range for the other. The loop
  over the offsets adds to the set assigned just before it and cannot raise, so the cache
  is written once, with the finished set. \<^verbatim>\<open>Knight.available_moves\<close> and
  \<^verbatim>\<open>King.available_moves\<close> return the cache that \<^verbatim>\<open>_validate_moves\<close> returns.
\<close>

definition leap_ok :: "state \<Rightarrow> fid \<Rightarrow> fid list \<Rightarrow> pos list \<Rightarrow> pos \<Rightarrow> bool" where
  "leap_ok s k other_figures other_positions mv =
     (0 \<le> fst mv \<and> fst mv \<le> rows s \<and> 0 \<le> snd mv \<and> snd mv \<le> columns s
      \<and> (case py_list_index other_positions mv of
            None \<Rightarrow> True
          | Some i \<Rightarrow> player_of s k \<noteq> player_of s (other_figures ! i)))"

definition validate_compute :: "fid \<Rightarrow> pos list \<Rightarrow> pos set m" where
  "validate_compute k moves =
     bind (position k) (\<lambda>cp.
     bind figures (\<lambda>other_figures.
     bind figures (\<lambda>fs.
     bind (positions fs) (\<lambda>other_positions.
     bind (gets (\<lambda>s. set (filter (leap_ok s k other_figures other_positions)
                           (map (\<lambda>i. (fst cp + fst i, snd cp + snd i)) moves)))) (\<lambda>res.
     bind (modify (set_available_moves k (Some res))) (\<lambda>_. return res))))))"

definition validate_moves :: "fid \<Rightarrow> pos list \<Rightarrow> pos set m" where
  "validate_moves k moves =
     bind (gets (\<lambda>s. f_available_moves (figs s k))) (\<lambda>c.
       case c of Some mv \<Rightarrow> return mv | None \<Rightarrow> validate_compute k moves)"

definition knight_offsets :: "pos list" where
  "knight_offsets = [(2, 1), (2, -1), (-2, 1), (-2, -1), (1, 2), (1, -2), (-1, 2), (-1, -2)]"

definition king_offsets :: "pos list" where
  "king_offsets = [(0, 1), (1, 0), (0, -1), (-1, 0), (1, -1), (-1, 1), (1, 1), (-1, -1)]"

definition Knight_available_moves :: "fid \<Rightarrow> pos set m" where
  "Knight_available_moves k = validate_moves k knight_offsets"

definition King_available_moves :: "fid \<Rightarrow> pos set m" where
  "King_available_moves k = validate_moves k king_offsets"

subsection \<open>Dispatch on the class of the figure\<close>

definition available_moves :: "fid \<Rightarrow> pos set m" where
  "available_moves k =
     bind (gets (\<lambda>s. kind (figs s k))) (\<lambda>kd.
       case kd of
         Pawn \<Rightarrow> Pawn_available_moves k
       | Rook \<Rightarrow> Rook_available_moves k
       | Bishop \<Rightarrow> Bishop_available_moves k
       | Queen \<Rightarrow> Queen_available_moves k
       | Knight \<Rightarrow> Knight_available_moves k
       | King \<Rightarrow> King_available_moves k)"

section \<open>Moving\<close>

definition move_validity :: "fid \<Rightarrow> pos \<Rightarrow> bool m" where
  "move_validity k to = bind (available_moves k) (\<lambda>mv. return (to \<in> mv))"

text \<open>
  \<^verbatim>\<open>Figure.move\<close>. The message of InvalidMove is an f-string that reads
  \<^verbatim>\<open>self.position\<close> and \<^verbatim>\<open>self.available_moves\<close> before the exception is raised.
\<close>

definition Figure_move :: "fid \<Rightarrow> pos \<Rightarrow> unit m" where
  "Figure_move k to =
     bind (move_validity k to) (\<lambda>ok.
       if \<not> ok then
         bind (position k) (\<lambda>_. bind (available_moves k) (\<lambda>_. raise InvalidMove))
       else
         bind (position k) (\<lambda>q.
         bind (set_figure None q) (\<lambda>_.
         bind (reset k) (\<lambda>_.
         bind (set_figure (Some k) to) (\<lambda>_.
         bind (gets (\<lambda>s. player_of s k)) (\<lambda>pl. player_reset pl))))))"

definition Pawn_move :: "fid \<Rightarrow> pos \<Rightarrow> unit m" where
  "Pawn_move k to =
     bind (Figure_move k to) (\<lambda>_.
     bind (modify (set_first_move k False)) (\<lambda>_. set_figure (Some k) to))"

definition move :: "fid \<Rightarrow> pos \<Rightarrow> unit m" where
  "move k to =
     bind (gets (\<lambda>s. kind (figs s k))) (\<lambda>kd.
       if kd = Pawn then Pawn_move k to else Figure_move k to)"

text \<open>
  \<^verbatim>\<open>Player.move\<close>. A figure object is always true, so \<^verbatim>\<open>not figure\<close> holds exactly for
  an empty cell. The message of MissingFigure reads the positions of the player's
  figures before the exception is raised.
\<close>

definition Player_move :: "pid \<Rightarrow> pos \<Rightarrow> pos \<Rightarrow> unit m" where
  "Player_move p from to =
     bind (lift (\<lambda>s. get_figure s from)) (\<lambda>c.
       case c of
         None \<Rightarrow>
           bind (player_figures p) (\<lambda>fs. bind (positions fs) (\<lambda>_. raise MissingFigure))
       | Some f \<Rightarrow>
           bind (gets (\<lambda>s. player_of s f)) (\<lambda>w.
             if w \<noteq> p then raise AccessError else move f to))"

section \<open>Construction\<close>

text \<open>
  \<^verbatim>\<open>Figure.__init__\<close> (with \<^verbatim>\<open>Pawn.__init__\<close>, which adds \<^verbatim>\<open>first_move = True\<close>; the
  other classes never read the flag), \<^verbatim>\<open>Player.__init__\<close>, where an empty name
  stands for the default, and \<^verbatim>\<open>Game.__init__\<close>: an 8 by 8 table, the player at
  address 0 is White and goes up, the player at address 1 is Black. \<open>place\<close> creates a
  figure at a fresh address and sets it on the table, as \<^verbatim>\<open>fill_table\<close> does.
\<close>

definition new_figure :: "kind \<Rightarrow> pid \<Rightarrow> figure" where
  "new_figure kd p =
     \<lparr>kind = kd, f_player = p, f_position = None, f_available_moves = None, first_move = True\<rparr>"

definition new_player :: "bool \<Rightarrow> string \<Rightarrow> player" where
  "new_player up nm =
     \<lparr>goes_up = up, name = (if nm \<noteq> [] then nm else if up then ''White'' else ''Black''),
      p_figures = None\<rparr>"

definition Game :: state where
  "Game =
     \<lparr>cells = cells (Table 8 8), rows = rows (Table 8 8), columns = columns (Table 8 8),
      t_figures = t_figures (Table 8 8),
      figs = (\<lambda>_. new_figure Pawn 0),
      players = (\<lambda>p. if p = 0 then new_player True ''White'' else new_player False ''Black'')\<rparr>"

definition place :: "fid \<Rightarrow> kind \<Rightarrow> pid \<Rightarrow> pos \<Rightarrow> state \<Rightarrow> state" where
  "place k kd p q s = snd (set_figure (Some k) q (s\<lparr>figs := (figs s)(k := new_figure kd p)\<rparr>))"

section \<open>Notions used in the properties\<close>

definition occupant :: "fid option list list \<Rightarrow> pos \<Rightarrow> fid option" where
  "occupant cs q =
     (if 0 \<le> fst q \<and> nat (fst q) < length cs \<and> 0 \<le> snd q \<and> nat (snd q) < length (cs ! nat (fst q))
      then cs ! nat (fst q) ! nat (snd q) else None)"

definition locate :: "fid option list list \<Rightarrow> fid \<Rightarrow> pos option" where
  "locate cs f = find_in_rows f cs 0"

definition pfill :: "state \<Rightarrow> state \<Rightarrow> bool" where
  "pfill s s' =
     (cells s' = cells s \<and> rows s' = rows s \<and> columns s' = columns s \<and> players s' = players s
      \<and> (\<forall>f. kind (figs s' f) = kind (figs s f) \<and> f_player (figs s' f) = f_player (figs s f)
             \<and> first_move (figs s' f) = first_move (figs s f)
             \<and> f_available_moves (figs s' f) = f_available_moves (figs s f)
             \<and> (f_position (figs s f) = None \<or> f_position (figs s' f) = f_position (figs s f)))
      \<and> (t_figures s = None \<or> t_figures s' = t_figures s))"

definition fills :: "state \<Rightarrow> state \<Rightarrow> bool" where
  "fills s s' =
     (cells s' = cells s \<and> rows s' = rows s \<and> columns s' = columns s \<and> players s' = players s
      \<and> (\<forall>f. kind (figs s' f) = kind (figs s f) \<and> f_player (figs s' f) = f_player (figs s f)
             \<and> first_move (figs s' f) = first_move (figs s f)
             \<and> (f_available_moves (figs s f) = None
                 \<or> f_available_moves (figs s' f) = f_available_moves (figs s f))
             \<and> (f_position (figs s f) = None \<or> f_position (figs s' f) = f_position (figs s f)))
      \<and> (t_figures s = None \<or> t_figures s' = t_figures s))"

definition fm_le :: "state \<Rightarrow> state \<Rightarrow> bool" where
  "fm_le s s' = (\<forall>f. first_move (figs s' f) \<longrightarrow> first_move (figs s f))"

definition steps :: "(state \<Rightarrow> state \<Rightarrow> bool) \<Rightarrow> 'a m \<Rightarrow> bool" where
  "steps R c = (\<forall>s. R s (snd (c s)))"

definition raises :: "error set \<Rightarrow> 'a m \<Rightarrow> bool" where
  "raises E c = (\<forall>s e s'. c s = (Inl e, s') \<longrightarrow> e \<in> E)"

definition fsteps :: "state \<Rightarrow> 'a m \<Rightarrow> bool" where
  "fsteps s0 c = (\<forall>s. fills s0 s \<longrightarrow> fills s0 (snd (c s)))"

definition coherent :: "state \<Rightarrow> bool" where
  "coherent s =
     ((case t_figures s of None \<Rightarrow> True | Some l \<Rightarrow> l = scan (cells s))
      \<and> list_all (\<lambda>f. case f_position (figs s f) of
                         None \<Rightarrow> True
                       | Some q \<Rightarrow> locate (cells s) f = Some q) (scan (cells s)))"

definition runs :: "state \<Rightarrow> 'a m \<Rightarrow> 'a \<Rightarrow> bool" where
  "runs s c x = (\<exists>s'. c s = (Inr x, s') \<and> pfill s s' \<and> coherent s')"

definition loc :: "state \<Rightarrow> fid \<Rightarrow> pos" where
  "loc s g = the (locate (cells s) g)"

definition occ :: "state \<Rightarrow> fid list \<Rightarrow> (pos \<times> pid) list" where
  "occ s t = map (\<lambda>g. (loc s g, player_of s g)) t"

fun cut_before_p :: "pos list \<Rightarrow> (pos \<times> pid) list \<Rightarrow> pid \<Rightarrow> pos list" where
  "cut_before_p f [] p = f"
| "cut_before_p f ((q, w) # t) p =
     cut_before_p
       (case py_list_index f q of
          None \<Rightarrow> f
        | Some s \<Rightarrow> if p = w then drop (s + 1) f else drop s f) t p"

fun cut_after_p :: "pos list \<Rightarrow> (pos \<times> pid) list \<Rightarrow> pid \<Rightarrow> pos list" where
  "cut_after_p f [] p = f"
| "cut_after_p f ((q, w) # t) p =
     cut_after_p
       (case py_list_index f q of
          None \<Rightarrow> f
        | Some s \<Rightarrow> if p = w then take s f else take (s + 1) f) t p"

fun trunc :: "(pos \<Rightarrow> pid option) \<Rightarrow> pid \<Rightarrow> pos list \<Rightarrow> pos list" where
  "trunc M p [] = []"
| "trunc M p (x # xs) =
     (case M x of None \<Rightarrow> x # trunc M p xs | Some w \<Rightarrow> if p = w then [] else [x])"


definition rect :: "state \<Rightarrow> bool" where
  "rect s =
     (length (cells s) = nat (rows s)
      \<and> list_all (\<lambda>row. length row = nat (columns s)) (cells s))"


definition aruns :: "state \<Rightarrow> 'a m \<Rightarrow> 'a \<Rightarrow> bool" where
  "aruns s0 c x =
     (\<forall>s. pfill s0 s \<and> coherent s \<longrightarrow> (\<exists>s'. c s = (Inr x, s') \<and> pfill s0 s' \<and> coherent s'))"

definition cruns :: "state \<Rightarrow> fid \<Rightarrow> pos set m \<Rightarrow> pos set \<Rightarrow> bool" where
  "cruns s0 k c V =
     (\<forall>s. pfill s0 s \<and> coherent s \<longrightarrow>
        (\<exists>s1. c s = (Inr V, set_available_moves k (Some V) s1) \<and> pfill s0 s1 \<and> coherent s1))"

definition computes :: "state \<Rightarrow> fid \<Rightarrow> pos set m \<Rightarrow> pos set \<Rightarrow> bool" where
  "computes s k c V =
     (\<exists>s1. c s = (Inr V, set_available_moves k (Some V) s1) \<and> pfill s s1 \<and> coherent s1)"

definition straight_p :: "state \<Rightarrow> fid \<Rightarrow> pos list \<times> pos list \<times> pos list \<times> pos list" where
  "straight_p s k =
     (cut_before_p (map (\<lambda>r. (r, snd (loc s k))) [0..fst (loc s k) - 1])
        (occ s (scan (cells s))) (player_of s k),
      cut_after_p (map (\<lambda>r. (r, snd (loc s k))) [fst (loc s k) + 1..rows s - 1])
        (occ s (scan (cells s))) (player_of s k),
      cut_before_p (map (\<lambda>c. (fst (loc s k), c)) [0..snd (loc s k) - 1])
        (occ s (scan (cells s))) (player_of s k),
      cut_after_p (map (\<lambda>c. (fst (loc s k), c)) [snd (loc s k) + 1..columns s - 1])
        (occ s (scan (cells s))) (player_of s k))"

definition oblique_p :: "state \<Rightarrow> fid \<Rightarrow> pos list \<times> pos list \<times> pos list \<times> pos list" where
  "oblique_p s k =
     (cut_after_p (left_up_from (loc s k) 1) (occ s (scan (cells s))) (player_of s k),
      cut_after_p (left_down_from (rows s) (loc s k) 1) (occ s (scan (cells s))) (player_of s k),
      cut_after_p (right_up_from (columns s) (loc s k) 1) (occ s (scan (cells s))) (player_of s k),
      cut_after_p (right_down_from (rows s) (columns s) (loc s k) 1)
        (occ s (scan (cells s))) (player_of s k))"

definition set4 :: "pos list \<times> pos list \<times> pos list \<times> pos list \<Rightarrow> pos set" where
  "set4 x = (case x of (a, b, c, d) \<Rightarrow> set a \<union> set b \<union> set c \<union> set d)"

definition leap_p :: "state \<Rightarrow> fid \<Rightarrow> pos list \<Rightarrow> pos set" where
  "leap_p s k moves =
     set (filter (leap_ok s k (scan (cells s)) (map (loc s) (scan (cells s))))
            (map (\<lambda>i. (fst (loc s k) + fst i, snd (loc s k) + snd i)) moves))"

definition pawn_takes :: "state \<Rightarrow> pid \<Rightarrow> pos \<Rightarrow> bool" where
  "pawn_takes s p i =
     (case get_figure s i of Inr (Some g) \<Rightarrow> player_of s g \<noteq> p | _ \<Rightarrow> False)"

definition pawn_p :: "state \<Rightarrow> fid \<Rightarrow> pos set" where
  "pawn_p s k =
     set (fold remove1 (map (loc s) (scan (cells s)))
            (clip s (pawn_straight (goes_up (players s (player_of s k))) (first_move (figs s k))
               (loc s k))))
     \<union> set (filter (pawn_takes s (player_of s k))
            (clip s (pawn_oblique (goes_up (players s (player_of s k))) (loc s k))))"

definition legal :: "state \<Rightarrow> fid \<Rightarrow> pos set" where
  "legal s k =
     (case kind (figs s k) of
        Pawn \<Rightarrow> pawn_p s k
      | Rook \<Rightarrow> set4 (straight_p s k)
      | Bishop \<Rightarrow> set4 (oblique_p s k)
      | Queen \<Rightarrow> set4 (straight_p s k) \<union> set4 (oblique_p s k)
      | Knight \<Rightarrow> leap_p s k knight_offsets
      | King \<Rightarrow> leap_p s k king_offsets)"

definition as_kind :: "kind \<Rightarrow> fid \<Rightarrow> state \<Rightarrow> state" where
  "as_kind kd k s = s\<lparr>figs := (figs s)(k := (figs s k)\<lparr>kind := kd\<rparr>)\<rparr>"

definition rook_table :: state where
  "rook_table = place 2 Pawn 0 (4, 6) (place 1 Pawn 1 (4, 4) (place 0 Rook 0 (4, 1) Game))"

definition knight_table :: state where
  "knight_table = place 0 Knight 0 (6, 1) Game"




definition on_table :: "state \<Rightarrow> pos \<Rightarrow> bool" where
  "on_table s q = (0 \<le> fst q \<and> fst q < rows s \<and> 0 \<le> snd q \<and> snd q < columns s)"



definition pawn_wrap_table :: state where
  "pawn_wrap_table = place 1 Pawn 1 (2, 7) (place 0 Pawn 0 (3, 0) Game)"

definition pawn_edge_table :: state where
  "pawn_edge_table = place 0 Pawn 0 (0, 3) Game"

section \<open>Basic facts\<close>

lemma find_in_row_Some:
  "find_in_row f row j = Some c \<Longrightarrow> j \<le> c \<and> nat (c - j) < length row \<and> row ! nat (c - j) = Some f"
proof (induction row arbitrary: j)
  case Nil
  then show ?case by simp
next
  case (Cons x xs)
  show ?case
  proof (cases "x = Some f")
    case True
    with Cons.prems show ?thesis by simp
  next
    case False
    with Cons.prems have "find_in_row f xs (j + 1) = Some c" by simp
    from Cons.IH [OF this] have "j + 1 \<le> c" "nat (c - (j + 1)) < length xs" "xs ! nat (c - (j + 1)) = Some f"
      by auto
    moreover from \<open>j + 1 \<le> c\<close> have "nat (c - j) = Suc (nat (c - (j + 1)))" by simp
    ultimately show ?thesis by simp
  qed
qed

lemma find_in_row_None: "find_in_row f row j = None \<longleftrightarrow> Some f \<notin> set row"
  by (induction row arbitrary: j) auto

lemma map_filter_id_Cons:
  "List.map_filter (\<lambda>x. x) (x # xs) = (case x of None \<Rightarrow> [] | Some g \<Rightarrow> [g]) @ List.map_filter (\<lambda>x. x) xs"
  by (cases x) (simp_all add: List.map_filter_def)

lemma set_map_filter_id: "set (List.map_filter (\<lambda>x. x) row) = {g. Some g \<in> set row}"
  by (induction row) (auto simp: map_filter_id_Cons List.map_filter_simps split: option.splits)


lemma scan_Nil [simp]: "scan [] = []"
  by (simp add: scan_def)

lemma scan_Cons [simp]: "scan (row # rs) = List.map_filter (\<lambda>x. x) row @ scan rs"
  by (simp add: scan_def)

lemma find_in_rows_Some:
  "find_in_rows f cs i = Some (r, c) \<Longrightarrow>
     i \<le> r \<and> nat (r - i) < length cs \<and> 0 \<le> c \<and> nat c < length (cs ! nat (r - i))
     \<and> cs ! nat (r - i) ! nat c = Some f"
proof (induction cs arbitrary: i)
  case Nil
  then show ?case by simp
next
  case (Cons row rs)
  show ?case
  proof (cases "find_in_row f row 0")
    case None
    with Cons.prems have "find_in_rows f rs (i + 1) = Some (r, c)" by simp
    from Cons.IH [OF this] have *: "i + 1 \<le> r" "nat (r - (i + 1)) < length rs" "0 \<le> c"
      "nat c < length (rs ! nat (r - (i + 1)))" "rs ! nat (r - (i + 1)) ! nat c = Some f"
      by auto
    moreover from \<open>i + 1 \<le> r\<close> have "nat (r - i) = Suc (nat (r - (i + 1)))" by simp
    ultimately show ?thesis by simp
  next
    case (Some j)
    with Cons.prems have "r = i" "c = j" by simp_all
    with find_in_row_Some [OF Some] show ?thesis by simp
  qed
qed

lemma find_in_rows_None: "find_in_rows f cs i = None \<longleftrightarrow> f \<notin> set (scan cs)"
proof (induction cs arbitrary: i)
  case Nil
  then show ?case by simp
next
  case (Cons row rs)
  show ?case
  proof (cases "find_in_row f row 0")
    case None
    then have "f \<notin> set (List.map_filter (\<lambda>x. x) row)"
      by (simp add: find_in_row_None set_map_filter_id)
    with None Cons.IH [of "i + 1"] show ?thesis by simp
  next
    case (Some j)
    then have "Some f \<in> set row" using find_in_row_None [of f row 0] by simp
    then have "f \<in> set (List.map_filter (\<lambda>x. x) row)" by (simp add: set_map_filter_id)
    with Some show ?thesis by simp
  qed
qed


lemma locate_occupant: "locate cs f = Some q \<Longrightarrow> occupant cs q = Some f"
  using find_in_rows_Some [of f cs 0 "fst q" "snd q"] by (simp add: locate_def occupant_def)

lemma locate_nonneg: "locate cs f = Some q \<Longrightarrow> 0 \<le> fst q \<and> 0 \<le> snd q"
  using find_in_rows_Some [of f cs 0 "fst q" "snd q"] by (simp add: locate_def)

lemma locate_None: "locate cs f = None \<longleftrightarrow> f \<notin> set (scan cs)"
  by (simp add: locate_def find_in_rows_None)



lemma scan_occupant: "f \<in> set (scan cs) \<Longrightarrow> \<exists>q. locate cs f = Some q \<and> occupant cs q = Some f"
  using locate_None [of cs f] locate_occupant [of cs f] by (cases "locate cs f") auto

lemma bind_Inr: "c s = (Inr x, s') \<Longrightarrow> bind c f s = f x s'"
  by (simp add: bind_def)

lemma bind_Inl: "c s = (Inl e, s') \<Longrightarrow> bind c f s = (Inl e, s')"
  by (simp add: bind_def)

lemma bind_gets [simp]: "bind (gets g) f s = f (g s) s"
  by (simp add: bind_def gets_def)

lemma bind_return [simp]: "bind (return x) f s = f x s"
  by (simp add: bind_def return_def)

lemma bind_raise [simp]: "bind (raise e) f s = (Inl e, s)"
  by (simp add: bind_def raise_def)

lemma bind_modify [simp]: "bind (modify g) f s = f () (g s)"
  by (simp add: bind_def modify_def)

lemma bind_lift: "bind (lift g) f s = (case g s of Inl e \<Rightarrow> (Inl e, s) | Inr x \<Rightarrow> f x s)"
  by (simp add: bind_def lift_def split: sum.splits)

lemma bind_cases:
  obtains (err) e s' where "c s = (Inl e, s')" "bind c f s = (Inl e, s')"
  | (ok) x s' where "c s = (Inr x, s')" "bind c f s = f x s'"
proof (cases "c s")
  case (Pair r s')
  then show ?thesis
    by (cases r) (auto intro: err ok simp: bind_Inl bind_Inr)
qed

lemma pfill_refl [simp]: "pfill s s"
  by (simp add: pfill_def)

lemma pfill_trans: "pfill a b \<Longrightarrow> pfill b c \<Longrightarrow> pfill a c"
  unfolding pfill_def by (intro conjI allI; metis)

lemma fills_refl [simp]: "fills s s"
  by (simp add: fills_def)

lemma fills_trans: "fills a b \<Longrightarrow> fills b c \<Longrightarrow> fills a c"
  unfolding fills_def by (intro conjI allI; metis)

lemma pfill_fills: "pfill a b \<Longrightarrow> fills a b"
  by (simp add: pfill_def fills_def)

lemma fm_le_refl [simp]: "fm_le s s"
  by (simp add: fm_le_def)

lemma fm_le_trans: "fm_le a b \<Longrightarrow> fm_le b c \<Longrightarrow> fm_le a c"
  by (simp add: fm_le_def)

lemma fills_fm_le: "fills a b \<Longrightarrow> fm_le a b"
  by (simp add: fills_def fm_le_def)

lemma steps_bind:
  assumes tr: "\<And>a b c. R a b \<Longrightarrow> R b c \<Longrightarrow> R a c"
    and c: "steps R c" and f: "\<And>x. steps R (f x)"
  shows "steps R (bind c f)"
  unfolding steps_def
proof
  fix s
  show "R s (snd (bind c f s))"
  proof (cases rule: bind_cases [of c s f])
    case (err e s')
    with c show ?thesis by (metis steps_def snd_conv)
  next
    case (ok x s')
    with c have "R s s'" by (metis steps_def snd_conv)
    moreover from f have "R s' (snd (f x s'))" by (simp add: steps_def)
    ultimately show ?thesis using ok tr by metis
  qed
qed

lemma steps_return: "(\<And>s. R s s) \<Longrightarrow> steps R (return x)"
  by (simp add: steps_def return_def)

lemma steps_raise: "(\<And>s. R s s) \<Longrightarrow> steps R (raise e)"
  by (simp add: steps_def raise_def)

lemma steps_gets: "(\<And>s. R s s) \<Longrightarrow> steps R (gets g)"
  by (simp add: steps_def gets_def)

lemma steps_lift: "(\<And>s. R s s) \<Longrightarrow> steps R (lift g)"
  by (simp add: steps_def lift_def)

lemmas pfill_bind = steps_bind [where R = pfill, OF pfill_trans]
lemmas pfill_return = steps_return [where R = pfill, OF pfill_refl]
lemmas pfill_raise = steps_raise [where R = pfill, OF pfill_refl]
lemmas pfill_gets = steps_gets [where R = pfill, OF pfill_refl]
lemmas pfill_lift = steps_lift [where R = pfill, OF pfill_refl]

lemma pfill_position: "steps pfill (position f)"
  by (auto simp: steps_def position_def pfill_def set_position_def split: option.splits sum.splits)

lemma pfill_figures: "steps pfill figures"
  by (auto simp: steps_def figures_def pfill_def split: option.splits)

lemma pfill_positions: "steps pfill (positions t)"
  by (induction t) (auto intro!: pfill_bind pfill_return pfill_position)

lemma pfill_cut_before: "steps pfill (cut_before f t p)"
  by (induction t arbitrary: f) (auto intro!: pfill_bind pfill_return pfill_position pfill_gets)

lemma pfill_cut_after: "steps pfill (cut_after f t p)"
  by (induction t arbitrary: f) (auto intro!: pfill_bind pfill_return pfill_position pfill_gets)

lemma pfill_remove_positions: "steps pfill (remove_positions t sm)"
  by (induction t arbitrary: sm) (auto intro!: pfill_bind pfill_return pfill_position)

lemma pfill_player_figures: "steps pfill (player_figures p)"
  unfolding player_figures_def
  by (auto intro!: pfill_bind pfill_return pfill_figures pfill_gets split: option.splits)

lemma pfill_straight_moves: "steps pfill (straight_moves k)"
  unfolding straight_moves_def
  by (intro pfill_bind pfill_return pfill_figures pfill_gets pfill_position pfill_cut_before
      pfill_cut_after)

lemma pfill_oblique_moves: "steps pfill (oblique_moves k)"
  unfolding oblique_moves_def
  by (intro pfill_bind pfill_return pfill_figures pfill_gets pfill_position pfill_cut_after)

lemma bind_eq_Inl:
  "bind c f s = (Inl e, s') \<longleftrightarrow>
     (c s = (Inl e, s') \<or> (\<exists>x s1. c s = (Inr x, s1) \<and> f x s1 = (Inl e, s')))"
  by (cases "c s") (auto simp: bind_def split: sum.splits)

lemma bind_eq_Inr:
  "bind c f s = (Inr y, s') \<longleftrightarrow> (\<exists>x s1. c s = (Inr x, s1) \<and> f x s1 = (Inr y, s'))"
  by (cases "c s") (auto simp: bind_def split: sum.splits)

lemma stepsD: "steps R c \<Longrightarrow> c s = (r, s') \<Longrightarrow> R s s'"
  by (metis steps_def snd_conv)

lemma fsteps_of_pfill: "steps pfill c \<Longrightarrow> fsteps s0 c"
  unfolding fsteps_def by (metis steps_def pfill_fills fills_trans)

lemma fsteps_bind: "fsteps s0 c \<Longrightarrow> (\<And>x. fsteps s0 (f x)) \<Longrightarrow> fsteps s0 (bind c f)"
  unfolding fsteps_def
proof (intro allI impI)
  fix s
  assume c: "\<forall>s. fills s0 s \<longrightarrow> fills s0 (snd (c s))"
    and f: "\<And>x. \<forall>s. fills s0 s \<longrightarrow> fills s0 (snd (f x s))" and s: "fills s0 s"
  show "fills s0 (snd (bind c f s))"
  proof (cases rule: bind_cases [of c s f])
    case (err e s')
    with c s show ?thesis by (metis snd_conv)
  next
    case (ok x s')
    with c s have "fills s0 s'" by (metis snd_conv)
    with f ok show ?thesis by simp
  qed
qed

lemma fsteps_return: "fsteps s0 (return x)"
  by (simp add: fsteps_def return_def)

lemma fsteps_modify_available_moves:
  "f_available_moves (figs s0 k) = None \<Longrightarrow> fsteps s0 (modify (set_available_moves k v))"
  by (auto simp: fsteps_def modify_def set_available_moves_def fills_def)

lemmas fsteps_intros =
  fsteps_bind fsteps_return fsteps_modify_available_moves
  fsteps_of_pfill [OF pfill_position] fsteps_of_pfill [OF pfill_figures]
  fsteps_of_pfill [OF pfill_positions] fsteps_of_pfill [OF pfill_gets]
  fsteps_of_pfill [OF pfill_lift] fsteps_of_pfill [OF pfill_remove_positions]
  fsteps_of_pfill [OF pfill_straight_moves] fsteps_of_pfill [OF pfill_oblique_moves]

lemma fsteps_Pawn_compute: "f_available_moves (figs s0 k) = None \<Longrightarrow> fsteps s0 (Pawn_compute k)"
  unfolding Pawn_compute_def by (intro fsteps_intros)

lemma fsteps_split4:
  "(\<And>a b c d. fsteps s0 (f a b c d)) \<Longrightarrow> fsteps s0 (case x of (a, b, c, d) \<Rightarrow> f a b c d)"
  by (cases x) simp

lemma fsteps_Rook_compute: "f_available_moves (figs s0 k) = None \<Longrightarrow> fsteps s0 (Rook_compute k)"
  unfolding Rook_compute_def by (intro fsteps_intros fsteps_split4)

lemma fsteps_Bishop_compute: "f_available_moves (figs s0 k) = None \<Longrightarrow> fsteps s0 (Bishop_compute k)"
  unfolding Bishop_compute_def by (intro fsteps_intros fsteps_split4)

lemma fsteps_Queen_compute: "f_available_moves (figs s0 k) = None \<Longrightarrow> fsteps s0 (Queen_compute k)"
  unfolding Queen_compute_def by (intro fsteps_intros fsteps_split4)

lemma fsteps_validate_compute:
  "f_available_moves (figs s0 k) = None \<Longrightarrow> fsteps s0 (validate_compute k moves)"
  unfolding validate_compute_def by (intro fsteps_intros)

lemma fills_cached:
  assumes "\<And>s. f_available_moves (figs s k) = None \<Longrightarrow> fsteps s body"
  shows "steps fills (bind (gets (\<lambda>s. f_available_moves (figs s k)))
           (\<lambda>c. case c of Some mv \<Rightarrow> return mv | None \<Rightarrow> body))"
  unfolding steps_def
proof
  fix s
  show "fills s (snd (bind (gets (\<lambda>s. f_available_moves (figs s k)))
           (\<lambda>c. case c of Some mv \<Rightarrow> return mv | None \<Rightarrow> body) s))"
  proof (cases "f_available_moves (figs s k)")
    case None
    from assms [OF None] have "fills s (snd (body s))" by (simp add: fsteps_def)
    with None show ?thesis by simp
  next
    case (Some mv)
    then show ?thesis by (simp add: return_def)
  qed
qed

lemma fills_available_moves: "steps fills (available_moves k)"
proof -
  have "steps fills (Pawn_available_moves k)" "steps fills (Rook_available_moves k)"
    "steps fills (Bishop_available_moves k)" "steps fills (Queen_available_moves k)"
    "steps fills (Knight_available_moves k)" "steps fills (King_available_moves k)"
    unfolding Pawn_available_moves_def Rook_available_moves_def Bishop_available_moves_def
      Queen_available_moves_def Knight_available_moves_def King_available_moves_def
      validate_moves_def
    by (intro fills_cached fsteps_Pawn_compute fsteps_Rook_compute fsteps_Bishop_compute
        fsteps_Queen_compute fsteps_validate_compute; assumption)+
  then show ?thesis
    unfolding available_moves_def steps_def by (auto split: kind.splits)
qed

lemmas fills_bind = steps_bind [where R = fills, OF fills_trans]
lemmas fills_return = steps_return [where R = fills, OF fills_refl]
lemmas fills_raise = steps_raise [where R = fills, OF fills_refl]

lemma fills_of_pfill: "steps pfill c \<Longrightarrow> steps fills c"
  by (simp add: steps_def pfill_fills)

lemma fills_move_validity: "steps fills (move_validity k to)"
  unfolding move_validity_def by (intro fills_bind fills_return fills_available_moves)

lemma raises_set_figure: "set_figure fg q s = (Inl e, s') \<Longrightarrow> e = IndexError"
  by (auto simp: set_figure_def split: option.splits)

lemma Figure_move_error:
  assumes "Figure_move k to s = (Inl e, s')" and "e \<noteq> IndexError"
  shows "fills s s'"
proof -
  let ?A = "bind (position k) (\<lambda>_. bind (available_moves k) (\<lambda>_. raise InvalidMove)) :: unit m"
  let ?C = "\<lambda>q. bind (set_figure None q) (\<lambda>_.
         bind (reset k) (\<lambda>_.
         bind (set_figure (Some k) to) (\<lambda>_.
         bind (gets (\<lambda>s. player_of s k)) (\<lambda>pl. player_reset pl))))"
  have inv: "steps fills ?A"
    by (intro fills_bind fills_raise fills_available_moves fills_of_pfill [OF pfill_position])
  have late: "e' = IndexError" if "?C q s2 = (Inl e', s3)" for q s2 e' s3
    using that
    by (auto simp: bind_eq_Inl reset_def player_reset_def table_reset_def modify_def gets_def
        dest: raises_set_figure)
  from assms(1) have "move_validity k to s = (Inl e, s')
      \<or> (\<exists>ok s1. move_validity k to s = (Inr ok, s1)
            \<and> (if \<not> ok then ?A else bind (position k) ?C) s1 = (Inl e, s'))"
    unfolding Figure_move_def by (subst (asm) bind_eq_Inl) simp
  then show ?thesis
  proof (elim disjE exE conjE)
    assume "move_validity k to s = (Inl e, s')"
    then show ?thesis using stepsD [OF fills_move_validity] by blast
  next
    fix ok s1
    assume mv: "move_validity k to s = (Inr ok, s1)"
      and rest: "(if \<not> ok then ?A else bind (position k) ?C) s1 = (Inl e, s')"
    from mv have f1: "fills s s1" using stepsD [OF fills_move_validity] by blast
    show ?thesis
    proof (cases ok)
      case False
      with rest have "?A s1 = (Inl e, s')" by simp
      then have "fills s1 s'" using stepsD [OF inv] by blast
      with f1 show ?thesis by (rule fills_trans)
    next
      case True
      with rest have "bind (position k) ?C s1 = (Inl e, s')" by simp
      then have "position k s1 = (Inl e, s')
          \<or> (\<exists>q s2. position k s1 = (Inr q, s2) \<and> ?C q s2 = (Inl e, s'))"
        by (subst (asm) bind_eq_Inl) simp
      then show ?thesis
      proof (elim disjE exE conjE)
        assume "position k s1 = (Inl e, s')"
        then have "fills s1 s'" using stepsD [OF fills_of_pfill [OF pfill_position]] by blast
        with f1 show ?thesis by (rule fills_trans)
      next
        fix q s2
        assume "?C q s2 = (Inl e, s')"
        then have "e = IndexError" by (rule late)
        with assms(2) show ?thesis by simp
      qed
    qed
  qed
qed

lemma Pawn_move_error:
  assumes "Pawn_move k to s = (Inl e, s')" and "e \<noteq> IndexError"
  shows "fills s s'"
proof -
  from assms(1) have "Figure_move k to s = (Inl e, s') \<or> e = IndexError"
    unfolding Pawn_move_def
    by (auto simp: bind_eq_Inl modify_def dest: raises_set_figure)
  with assms(2) Figure_move_error show ?thesis by blast
qed

lemma move_error:
  assumes "move k to s = (Inl e, s')" and "e \<noteq> IndexError"
  shows "fills s s'"
  using assms Figure_move_error Pawn_move_error
  by (auto simp: move_def split: if_splits)

lemma pfill_cells: "pfill s s' \<Longrightarrow> cells s' = cells s"
  and pfill_rows: "pfill s s' \<Longrightarrow> rows s' = rows s"
  and pfill_columns: "pfill s s' \<Longrightarrow> columns s' = columns s"
  and pfill_players: "pfill s s' \<Longrightarrow> players s' = players s"
  and pfill_kind: "pfill s s' \<Longrightarrow> kind (figs s' f) = kind (figs s f)"
  and pfill_first_move: "pfill s s' \<Longrightarrow> first_move (figs s' f) = first_move (figs s f)"
  and pfill_available_moves:
    "pfill s s' \<Longrightarrow> f_available_moves (figs s' f) = f_available_moves (figs s f)"
  and pfill_player_of: "pfill s s' \<Longrightarrow> player_of s' = player_of s"
  by (auto simp: pfill_def player_of_def)

lemma pfill_loc: "pfill s s' \<Longrightarrow> loc s' = loc s"
  by (auto simp: loc_def pfill_cells)

lemma pfill_occ: "pfill s s' \<Longrightarrow> occ s' = occ s"
  by (auto simp: occ_def pfill_loc pfill_player_of)

lemmas pfillD = pfill_cells pfill_rows pfill_columns pfill_players pfill_kind pfill_first_move
  pfill_available_moves pfill_player_of pfill_loc pfill_occ

lemma runsI: "c s = (Inr x, s') \<Longrightarrow> pfill s s' \<Longrightarrow> coherent s' \<Longrightarrow> runs s c x"
  by (auto simp: runs_def)

lemma runs_bind:
  assumes "runs s c x" and "\<And>s'. pfill s s' \<Longrightarrow> coherent s' \<Longrightarrow> runs s' (f x) y"
  shows "runs s (bind c f) y"
proof -
  from assms(1) obtain s1 where 1: "c s = (Inr x, s1)" "pfill s s1" "coherent s1"
    by (auto simp: runs_def)
  from assms(2) [OF 1(2,3)] obtain s2 where 2: "f x s1 = (Inr y, s2)" "pfill s1 s2" "coherent s2"
    by (auto simp: runs_def)
  from 1 2 show ?thesis
    by (auto simp: runs_def bind_Inr intro: pfill_trans)
qed

lemma runs_return: "coherent s \<Longrightarrow> runs s (return x) x"
  by (simp add: runs_def return_def)

lemma runs_gets: "coherent s \<Longrightarrow> runs s (gets g) (g s)"
  by (simp add: runs_def gets_def)

lemma runs_bind_gets: "runs s (f (g s)) y \<Longrightarrow> runs s (bind (gets g) f) y"
  by (simp add: runs_def)

lemma runs_weaken: "runs s c x \<Longrightarrow> x = y \<Longrightarrow> runs s c y"
  by simp

lemma coherent_positionD:
  "coherent s \<Longrightarrow> f \<in> set (scan (cells s)) \<Longrightarrow> f_position (figs s f) = Some q
   \<Longrightarrow> locate (cells s) f = Some q"
  by (cases q) (auto simp: coherent_def list_all_iff split: option.splits)

lemma runs_position:
  assumes "coherent s" and "locate (cells s) f = Some q"
  shows "runs s (position f) q"
proof (cases "f_position (figs s f)")
  case None
  have "coherent (set_position f (Some q) s)"
    using assms
    by (auto simp: coherent_def set_position_def list_all_iff split: option.splits)
  moreover have "pfill s (set_position f (Some q) s)"
    using None by (simp add: pfill_def set_position_def)
  ultimately show ?thesis
    using None assms(2)
    by (auto simp: runs_def position_def get_figure_position_def locate_def)
next
  case (Some q')
  from assms(2) have "f \<in> set (scan (cells s))" using locate_None [of "cells s" f] by auto
  with Some assms have "q' = q" using coherent_positionD by fastforce
  with Some assms(1) show ?thesis
    by (simp add: runs_def position_def)
qed

lemma runs_position_loc:
  "coherent s \<Longrightarrow> f \<in> set (scan (cells s)) \<Longrightarrow> runs s (position f) (loc s f)"
  using scan_occupant [of f "cells s"] by (auto simp: loc_def intro: runs_position)

lemma runs_figures: "coherent s \<Longrightarrow> runs s figures (scan (cells s))"
  by (auto simp: runs_def figures_def coherent_def pfill_def split: option.splits)

lemma runs_positions:
  "coherent s \<Longrightarrow> set t \<subseteq> set (scan (cells s)) \<Longrightarrow> runs s (positions t) (map (loc s) t)"
proof (induction t arbitrary: s)
  case Nil
  then show ?case by (simp add: runs_return)
next
  case (Cons i t)
  show ?case
    unfolding positions.simps
  proof (rule runs_bind [OF runs_position_loc])
    show "coherent s" "i \<in> set (scan (cells s))" using Cons.prems by simp_all
  next
    fix s'
    assume s': "pfill s s'" "coherent s'"
    show "runs s' (bind (positions t) (\<lambda>qs. return (loc s i # qs))) (map (loc s) (i # t))"
    proof (rule runs_bind)
      show "runs s' (positions t) (map (loc s) t)"
        using Cons.IH [of s'] Cons.prems s' by (simp add: pfillD [OF s'(1)])
    next
      fix s''
      assume "pfill s' s''" "coherent s''"
      then show "runs s'' (return (loc s i # map (loc s) t)) (map (loc s) (i # t))"
        by (simp add: runs_return)
    qed
  qed
qed

lemma runs_cut_after:
  "coherent s \<Longrightarrow> set t \<subseteq> set (scan (cells s))
   \<Longrightarrow> runs s (cut_after f t p) (cut_after_p f (occ s t) p)"
proof (induction t arbitrary: f s)
  case Nil
  then show ?case by (simp add: runs_return occ_def)
next
  case (Cons i t)
  show ?case
    unfolding cut_after.simps
  proof (rule runs_bind [OF runs_position_loc])
    show "coherent s" "i \<in> set (scan (cells s))" using Cons.prems by simp_all
  next
    fix s'
    assume s': "pfill s s'" "coherent s'"
    let ?f' = "case py_list_index f (loc s i) of None \<Rightarrow> f
      | Some n \<Rightarrow> if p = player_of s i then take n f else take (n + 1) f"
    have "runs s' (cut_after ?f' t p) (cut_after_p ?f' (occ s' t) p)"
      using Cons.IH [of s'] Cons.prems s' by (simp add: pfillD [OF s'(1)])
    then show "runs s' (bind (gets (\<lambda>s. player_of s i)) (\<lambda>w. cut_after
        (case py_list_index f (loc s i) of None \<Rightarrow> f
         | Some n \<Rightarrow> if p = w then take n f else take (n + 1) f) t p))
        (cut_after_p f (occ s (i # t)) p)"
      by (simp add: runs_def pfillD [OF s'(1)] occ_def cong: option.case_cong)
  qed
qed

lemma runs_cut_before:
  "coherent s \<Longrightarrow> set t \<subseteq> set (scan (cells s))
   \<Longrightarrow> runs s (cut_before f t p) (cut_before_p f (occ s t) p)"
proof (induction t arbitrary: f s)
  case Nil
  then show ?case by (simp add: runs_return occ_def)
next
  case (Cons i t)
  show ?case
    unfolding cut_before.simps
  proof (rule runs_bind [OF runs_position_loc])
    show "coherent s" "i \<in> set (scan (cells s))" using Cons.prems by simp_all
  next
    fix s'
    assume s': "pfill s s'" "coherent s'"
    let ?f' = "case py_list_index f (loc s i) of None \<Rightarrow> f
      | Some n \<Rightarrow> if p = player_of s i then drop (n + 1) f else drop n f"
    have "runs s' (cut_before ?f' t p) (cut_before_p ?f' (occ s' t) p)"
      using Cons.IH [of s'] Cons.prems s' by (simp add: pfillD [OF s'(1)])
    then show "runs s' (bind (gets (\<lambda>s. player_of s i)) (\<lambda>w. cut_before
        (case py_list_index f (loc s i) of None \<Rightarrow> f
         | Some n \<Rightarrow> if p = w then drop (n + 1) f else drop n f) t p))
        (cut_before_p f (occ s (i # t)) p)"
      by (simp add: runs_def pfillD [OF s'(1)] occ_def cong: option.case_cong)
  qed
qed

lemma runs_remove_positions:
  "coherent s \<Longrightarrow> set t \<subseteq> set (scan (cells s))
   \<Longrightarrow> runs s (remove_positions t sm) (fold remove1 (map (loc s) t) sm)"
proof (induction t arbitrary: sm s)
  case Nil
  then show ?case by (simp add: runs_return)
next
  case (Cons i t)
  show ?case
    unfolding remove_positions.simps
  proof (rule runs_bind [OF runs_position_loc])
    show "coherent s" "i \<in> set (scan (cells s))" using Cons.prems by simp_all
  next
    fix s'
    assume s': "pfill s s'" "coherent s'"
    show "runs s' (remove_positions t (remove1 (loc s i) sm)) (fold remove1 (map (loc s) (i # t)) sm)"
      using Cons.IH [of s' "remove1 (loc s i) sm"] Cons.prems s' by (simp add: pfillD [OF s'(1)])
  qed
qed









lemma loc_occupant: "g \<in> set (scan (cells s)) \<Longrightarrow> occupant (cells s) (loc s g) = Some g"
  using scan_occupant [of g "cells s"] by (auto simp: loc_def)







lemma set_trunc: "set (trunc M p f) \<subseteq> set f"
  by (induction f) (auto split: option.splits)

lemma arunsD:
  "aruns s0 c x \<Longrightarrow> pfill s0 s \<Longrightarrow> coherent s
   \<Longrightarrow> \<exists>s'. c s = (Inr x, s') \<and> pfill s0 s' \<and> coherent s'"
  by (simp add: aruns_def)

lemma aruns_bind: "aruns s0 c x \<Longrightarrow> aruns s0 (f x) y \<Longrightarrow> aruns s0 (bind c f) y"
  unfolding aruns_def
proof (intro allI impI)
  fix s
  assume c: "\<forall>s. pfill s0 s \<and> coherent s \<longrightarrow> (\<exists>s'. c s = (Inr x, s') \<and> pfill s0 s' \<and> coherent s')"
    and f: "\<forall>s. pfill s0 s \<and> coherent s \<longrightarrow> (\<exists>s'. f x s = (Inr y, s') \<and> pfill s0 s' \<and> coherent s')"
    and s: "pfill s0 s \<and> coherent s"
  from c s obtain s1 where 1: "c s = (Inr x, s1)" "pfill s0 s1 \<and> coherent s1" by blast
  from f 1(2) obtain s2 where 2: "f x s1 = (Inr y, s2)" "pfill s0 s2 \<and> coherent s2" by blast
  from 1 2 show "\<exists>s'. bind c f s = (Inr y, s') \<and> pfill s0 s' \<and> coherent s'"
    by (simp add: bind_Inr)
qed

lemma aruns_of_runs:
  assumes "\<And>s. pfill s0 s \<Longrightarrow> coherent s \<Longrightarrow> runs s c x"
  shows "aruns s0 c x"
  unfolding aruns_def
proof (intro allI impI)
  fix s
  assume s: "pfill s0 s \<and> coherent s"
  with assms have "runs s c x" by simp
  then obtain s' where "c s = (Inr x, s')" "pfill s s'" "coherent s'" by (auto simp: runs_def)
  with s show "\<exists>s'. c s = (Inr x, s') \<and> pfill s0 s' \<and> coherent s'"
    by (blast intro: pfill_trans)
qed

lemma aruns_return: "x = y \<Longrightarrow> aruns s0 (return x) y"
  by (simp add: aruns_def return_def)

lemma aruns_bind_gets:
  "(\<And>s. pfill s0 s \<Longrightarrow> g s = v) \<Longrightarrow> aruns s0 (f v) y \<Longrightarrow> aruns s0 (bind (gets g) f) y"
  by (simp add: aruns_def)

lemma aruns_bind_lift:
  "(\<And>s. pfill s0 s \<Longrightarrow> g s = Inr v) \<Longrightarrow> aruns s0 (f v) y \<Longrightarrow> aruns s0 (bind (lift g) f) y"
  by (simp add: aruns_def bind_lift)

lemma aruns_position: "k \<in> set (scan (cells s0)) \<Longrightarrow> aruns s0 (position k) (loc s0 k)"
proof (rule aruns_of_runs)
  fix s
  assume "k \<in> set (scan (cells s0))" "pfill s0 s" "coherent s"
  with runs_position_loc [of s k] show "runs s (position k) (loc s0 k)"
    by (simp add: pfillD)
qed

lemma aruns_figures: "aruns s0 figures (scan (cells s0))"
proof (rule aruns_of_runs)
  fix s
  assume "pfill s0 s" "coherent s"
  with runs_figures [of s] show "runs s figures (scan (cells s0))" by (simp add: pfillD)
qed

lemma aruns_positions:
  "set t \<subseteq> set (scan (cells s0)) \<Longrightarrow> aruns s0 (positions t) (map (loc s0) t)"
proof (rule aruns_of_runs)
  fix s
  assume "set t \<subseteq> set (scan (cells s0))" "pfill s0 s" "coherent s"
  with runs_positions [of s t] show "runs s (positions t) (map (loc s0) t)"
    by (simp add: pfillD)
qed

lemma aruns_cut_after:
  "set t \<subseteq> set (scan (cells s0)) \<Longrightarrow> aruns s0 (cut_after f t p) (cut_after_p f (occ s0 t) p)"
proof (rule aruns_of_runs)
  fix s
  assume "set t \<subseteq> set (scan (cells s0))" "pfill s0 s" "coherent s"
  with runs_cut_after [of s t f p] show "runs s (cut_after f t p) (cut_after_p f (occ s0 t) p)"
    by (simp add: pfillD)
qed

lemma aruns_cut_before:
  "set t \<subseteq> set (scan (cells s0)) \<Longrightarrow> aruns s0 (cut_before f t p) (cut_before_p f (occ s0 t) p)"
proof (rule aruns_of_runs)
  fix s
  assume "set t \<subseteq> set (scan (cells s0))" "pfill s0 s" "coherent s"
  with runs_cut_before [of s t f p] show "runs s (cut_before f t p) (cut_before_p f (occ s0 t) p)"
    by (simp add: pfillD)
qed

lemma aruns_remove_positions:
  "set t \<subseteq> set (scan (cells s0))
   \<Longrightarrow> aruns s0 (remove_positions t sm) (fold remove1 (map (loc s0) t) sm)"
proof (rule aruns_of_runs)
  fix s
  assume "set t \<subseteq> set (scan (cells s0))" "pfill s0 s" "coherent s"
  with runs_remove_positions [of s t sm]
  show "runs s (remove_positions t sm) (fold remove1 (map (loc s0) t) sm)"
    by (simp add: pfillD)
qed

lemma aruns_straight_moves:
  assumes "k \<in> set (scan (cells s0))"
  shows "aruns s0 (straight_moves k) (straight_p s0 k)"
  unfolding straight_moves_def
  apply (rule aruns_bind [OF aruns_position [OF assms]])
  apply (rule aruns_bind [OF aruns_figures])
  apply (rule aruns_bind_gets [where v = "player_of s0 k"])
   apply (simp add: pfillD)
  apply (rule aruns_bind [OF aruns_cut_before])
   apply simp
  apply (rule aruns_bind_gets [where v = "rows s0"])
   apply (simp add: pfillD)
  apply (rule aruns_bind [OF aruns_cut_after])
   apply simp
  apply (rule aruns_bind [OF aruns_cut_before])
   apply simp
  apply (rule aruns_bind_gets [where v = "columns s0"])
   apply (simp add: pfillD)
  apply (rule aruns_bind [OF aruns_cut_after])
   apply simp
  apply (rule aruns_return)
  apply (simp add: straight_p_def)
  done

lemma aruns_oblique_moves:
  assumes "k \<in> set (scan (cells s0))"
  shows "aruns s0 (oblique_moves k) (oblique_p s0 k)"
  unfolding oblique_moves_def
  apply (rule aruns_bind [OF aruns_position [OF assms]])
  apply (rule aruns_bind [OF aruns_figures])
  apply (rule aruns_bind_gets [where v = "player_of s0 k"])
   apply (simp add: pfillD)
  apply (rule aruns_bind [OF aruns_cut_after])
   apply simp
  apply (rule aruns_bind_gets [where v = "rows s0"])
   apply (simp add: pfillD)
  apply (rule aruns_bind [OF aruns_cut_after])
   apply simp
  apply (rule aruns_bind_gets [where v = "columns s0"])
   apply (simp add: pfillD)
  apply (rule aruns_bind [OF aruns_cut_after])
   apply simp
  apply (rule aruns_bind [OF aruns_cut_after])
   apply simp
  apply (rule aruns_return)
  apply (simp add: oblique_p_def)
  done

lemma set_available_moves_fields [simp]:
  "cells (set_available_moves k v s) = cells s"
  "rows (set_available_moves k v s) = rows s"
  "columns (set_available_moves k v s) = columns s"
  "players (set_available_moves k v s) = players s"
  "t_figures (set_available_moves k v s) = t_figures s"
  "player_of (set_available_moves k v s) = player_of s"
  "kind (figs (set_available_moves k v s) f) = kind (figs s f)"
  "first_move (figs (set_available_moves k v s) f) = first_move (figs s f)"
  "f_position (figs (set_available_moves k v s) f) = f_position (figs s f)"
  "f_available_moves (figs (set_available_moves k v s) f)
     = (if f = k then v else f_available_moves (figs s f))"
  by (auto simp: set_available_moves_def player_of_def)

lemma set_available_moves_twice [simp]:
  "set_available_moves k v (set_available_moves k w s) = set_available_moves k v s"
  by (simp add: set_available_moves_def)

lemma coherent_set_available_moves [simp]:
  "coherent (set_available_moves k v s) = coherent s"
  by (simp add: coherent_def cong: option.case_cong)

lemma pfill_unset:
  "pfill (set_available_moves k a s) s1 \<Longrightarrow> f_available_moves (figs s k) = b
   \<Longrightarrow> pfill s (set_available_moves k b s1)"
proof -
  assume p: "pfill (set_available_moves k a s) s1" and b: "f_available_moves (figs s k) = b"
  have av: "f_available_moves (figs (set_available_moves k b s1) f) = f_available_moves (figs s f)"
    for f
    using p b by (cases "f = k") (auto simp: pfill_def split: if_splits)
  have po: "f_position (figs s f) = None
      \<or> f_position (figs (set_available_moves k b s1) f) = f_position (figs s f)" for f
    using p by (auto simp: pfill_def)
  have ot: "kind (figs (set_available_moves k b s1) f) = kind (figs s f)"
    "f_player (figs (set_available_moves k b s1) f) = f_player (figs s f)"
    "first_move (figs (set_available_moves k b s1) f) = first_move (figs s f)" for f
    using p by (auto simp: pfill_def set_available_moves_def)
  have tb: "cells s1 = cells s" "rows s1 = rows s" "columns s1 = columns s" "players s1 = players s"
    "t_figures s = None \<or> t_figures s1 = t_figures s"
    using p by (auto simp: pfill_def)
  show ?thesis
    unfolding pfill_def using av po ot tb by simp
qed

lemma loc_cong: "cells s' = cells s \<Longrightarrow> loc s' = loc s"
  by (auto simp: loc_def)

lemma occ_cong: "cells s' = cells s \<Longrightarrow> player_of s' = player_of s \<Longrightarrow> occ s' = occ s"
  by (auto simp: occ_def loc_def)

lemma straight_p_cong:
  "cells s' = cells s \<Longrightarrow> rows s' = rows s \<Longrightarrow> columns s' = columns s
   \<Longrightarrow> player_of s' = player_of s \<Longrightarrow> straight_p s' k = straight_p s k"
  using loc_cong [of s' s] occ_cong [of s' s] by (simp add: straight_p_def)

lemma oblique_p_cong:
  "cells s' = cells s \<Longrightarrow> rows s' = rows s \<Longrightarrow> columns s' = columns s
   \<Longrightarrow> player_of s' = player_of s \<Longrightarrow> oblique_p s' k = oblique_p s k"
  using loc_cong [of s' s] occ_cong [of s' s] by (simp add: oblique_p_def)

lemma cruns_bind: "aruns s0 c x \<Longrightarrow> cruns s0 k (f x) V \<Longrightarrow> cruns s0 k (bind c f) V"
  unfolding cruns_def
proof (intro allI impI)
  fix s
  assume c: "aruns s0 c x"
    and f: "\<forall>s. pfill s0 s \<and> coherent s \<longrightarrow>
      (\<exists>s1. f x s = (Inr V, set_available_moves k (Some V) s1) \<and> pfill s0 s1 \<and> coherent s1)"
    and s: "pfill s0 s \<and> coherent s"
  from arunsD [OF c] s obtain s1 where 1: "c s = (Inr x, s1)" "pfill s0 s1 \<and> coherent s1" by blast
  from f 1(2) obtain s2 where "f x s1 = (Inr V, set_available_moves k (Some V) s2)"
    "pfill s0 s2 \<and> coherent s2" by blast
  with 1 show "\<exists>s1. bind c f s = (Inr V, set_available_moves k (Some V) s1)
      \<and> pfill s0 s1 \<and> coherent s1"
    by (auto simp: bind_Inr)
qed

lemma cruns_bind_gets:
  "(\<And>s. pfill s0 s \<Longrightarrow> g s = v) \<Longrightarrow> cruns s0 k (f v) V \<Longrightarrow> cruns s0 k (bind (gets g) f) V"
  by (simp add: cruns_def)

lemma cruns_bind_lift:
  "(\<And>s. pfill s0 s \<Longrightarrow> g s = Inr v) \<Longrightarrow> cruns s0 k (f v) V \<Longrightarrow> cruns s0 k (bind (lift g) f) V"
  by (simp add: cruns_def bind_lift)

lemma cruns_final:
  "V' = V \<Longrightarrow> cruns s0 k (bind (modify (set_available_moves k (Some V'))) (\<lambda>_. return V')) V"
  by (auto simp: cruns_def return_def)

lemma cruns_computes: "cruns s k c V \<Longrightarrow> coherent s \<Longrightarrow> computes s k c V"
  by (simp add: cruns_def computes_def)

lemma cruns_rays:
  assumes "aruns s0 c x"
  shows "cruns s0 k (bind c (\<lambda>(a, b, c, d).
           bind (modify (set_available_moves k (Some (set a \<union> set b \<union> set c \<union> set d))))
             (\<lambda>_. return (set a \<union> set b \<union> set c \<union> set d)))) (set4 x)"
  by (rule cruns_bind [OF assms]) (cases x, simp add: set4_def cruns_final)

lemma computes_after_clear:
  assumes c: "cruns (set_available_moves k (Some {}) s) k c V" and s: "coherent s"
    and n: "f_available_moves (figs s k) = None"
  shows "computes s k (bind (modify (set_available_moves k (Some {}))) (\<lambda>_. c)) V"
proof -
  let ?sa = "set_available_moves k (Some {}) s"
  have "pfill ?sa ?sa \<and> coherent ?sa" using s by simp
  with c [unfolded cruns_def] obtain s1 where 1: "c ?sa = (Inr V, set_available_moves k (Some V) s1)"
    "pfill ?sa s1" "coherent s1"
    by blast
  from pfill_unset [OF 1(2) n] have "pfill s (set_available_moves k None s1)" .
  moreover have "coherent (set_available_moves k None s1)" using 1(3) by simp
  moreover have "bind (modify (set_available_moves k (Some {}))) (\<lambda>_. c) s
      = (Inr V, set_available_moves k (Some V) (set_available_moves k None s1))"
    using 1(1) by simp
  ultimately show ?thesis unfolding computes_def by blast
qed

lemma Rook_computes:
  assumes "coherent s" "k \<in> set (scan (cells s))" "f_available_moves (figs s k) = None"
  shows "computes s k (Rook_compute k) (set4 (straight_p s k))"
proof -
  let ?sa = "set_available_moves k (Some {}) s"
  have "aruns ?sa (straight_moves k) (straight_p ?sa k)"
    using assms(2) by (intro aruns_straight_moves) simp
  then have "aruns ?sa (straight_moves k) (straight_p s k)"
    using straight_p_cong [of ?sa s k] by simp
  from computes_after_clear [OF cruns_rays [OF this] assms(1,3)]
  show ?thesis unfolding Rook_compute_def .
qed

lemma Bishop_computes:
  assumes "coherent s" "k \<in> set (scan (cells s))" "f_available_moves (figs s k) = None"
  shows "computes s k (Bishop_compute k) (set4 (oblique_p s k))"
proof -
  let ?sa = "set_available_moves k (Some {}) s"
  have "aruns ?sa (oblique_moves k) (oblique_p ?sa k)"
    using assms(2) by (intro aruns_oblique_moves) simp
  then have "aruns ?sa (oblique_moves k) (oblique_p s k)"
    using oblique_p_cong [of ?sa s k] by simp
  from computes_after_clear [OF cruns_rays [OF this] assms(1,3)]
  show ?thesis unfolding Bishop_compute_def .
qed

lemma Queen_computes:
  assumes "coherent s" "k \<in> set (scan (cells s))" "f_available_moves (figs s k) = None"
  shows "computes s k (Queen_compute k) (set4 (straight_p s k) \<union> set4 (oblique_p s k))"
proof -
  let ?sa = "set_available_moves k (Some {}) s"
  have st: "aruns ?sa (straight_moves k) (straight_p s k)"
    using aruns_straight_moves [of k ?sa] assms(2) straight_p_cong [of ?sa s k] by simp
  have ob: "aruns ?sa (oblique_moves k) (oblique_p s k)"
    using aruns_oblique_moves [of k ?sa] assms(2) oblique_p_cong [of ?sa s k] by simp
  obtain u d l r where sp: "straight_p s k = (u, d, l, r)" by (cases "straight_p s k")
  obtain lu ld ru rd where op: "oblique_p s k = (lu, ld, ru, rd)" by (cases "oblique_p s k")
  have "cruns ?sa k (bind (straight_moves k) (\<lambda>(up, down, left, right).
     bind (oblique_moves k) (\<lambda>(lu, ld, ru, rd).
     bind (modify (set_available_moves k
             (Some (set up \<union> set down \<union> set left \<union> set right
                    \<union> (set lu \<union> set ld \<union> set ru \<union> set rd)))))
       (\<lambda>_. return (set up \<union> set down \<union> set left \<union> set right
                    \<union> (set lu \<union> set ld \<union> set ru \<union> set rd))))))
     (set4 (straight_p s k) \<union> set4 (oblique_p s k))"
    apply (rule cruns_bind [OF st])
    apply (simp only: sp split_conv)
    apply (rule cruns_bind [OF ob])
    apply (simp only: op split_conv)
    apply (rule cruns_final)
    apply (simp add: set4_def)
    done
  from computes_after_clear [OF this assms(1,3)]
  show ?thesis unfolding Queen_compute_def .
qed

lemma leap_ok_cong:
  "rows s' = rows s \<Longrightarrow> columns s' = columns s \<Longrightarrow> player_of s' = player_of s
   \<Longrightarrow> leap_ok s' = leap_ok s"
  by (intro ext) (simp add: leap_ok_def cong: option.case_cong)

lemma validate_cruns:
  assumes "k \<in> set (scan (cells s0))"
  shows "cruns s0 k (validate_compute k moves) (leap_p s0 k moves)"
proof -
  have lp: "set (filter (leap_ok s k (scan (cells s0)) (map (loc s0) (scan (cells s0))))
                 (map (\<lambda>i. (fst (loc s0 k) + fst i, snd (loc s0 k) + snd i)) moves))
            = leap_p s0 k moves" if "pfill s0 s" for s
    using leap_ok_cong [of s s0] by (simp add: leap_p_def pfillD [OF that])
  show ?thesis
    unfolding validate_compute_def
    apply (rule cruns_bind [OF aruns_position [OF assms]])
    apply (rule cruns_bind [OF aruns_figures])
    apply (rule cruns_bind [OF aruns_figures])
    apply (rule cruns_bind [OF aruns_positions])
     apply (rule subset_refl)
    apply (rule cruns_bind_gets [where v = "leap_p s0 k moves"])
     apply (erule lp)
    apply (rule cruns_final)
    apply (rule refl)
    done
qed

lemma py_norm_ok: "- 1 \<le> i \<Longrightarrow> i < int n \<Longrightarrow> 0 < n \<Longrightarrow> \<exists>j<n. py_norm n i = Some j"
  by (auto simp: py_norm_def)


lemma rect_row_length: "rect s \<Longrightarrow> j < length (cells s) \<Longrightarrow> length (cells s ! j) = nat (columns s)"
  by (simp add: rect_def list_all_length)

lemma get_figure_ok:
  assumes "rect s" "- 1 \<le> fst i" "fst i < rows s" "- 1 \<le> snd i" "snd i < columns s"
    "0 < rows s" "0 < columns s"
  shows "\<exists>c. get_figure s i = Inr c"
proof -
  from assms have len: "length (cells s) = nat (rows s)" by (simp add: rect_def)
  with assms obtain j where j: "j < length (cells s)" "py_norm (length (cells s)) (fst i) = Some j"
    using py_norm_ok [of "fst i" "length (cells s)"] by auto
  from rect_row_length [OF assms(1) j(1)] assms
  obtain j' where "py_norm (length (cells s ! j)) (snd i) = Some j'"
    using py_norm_ok [of "snd i" "length (cells s ! j)"] by auto
  with j show ?thesis by (simp add: get_figure_def py_index_def)
qed


lemma oblique_filter_ok:
  "(\<And>i. i \<in> set om \<Longrightarrow> \<exists>c. get_figure s i = Inr c)
   \<Longrightarrow> oblique_filter s p om = Inr (filter (pawn_takes s p) om)"
proof (induction om)
  case Nil
  then show ?case by simp
next
  case (Cons i om)
  from Cons.prems [of i] obtain c where c: "get_figure s i = Inr c" by auto
  from Cons.IH Cons.prems have "oblique_filter s p om = Inr (filter (pawn_takes s p) om)" by simp
  moreover from c have "pawn_takes s p i = (case c of None \<Rightarrow> False | Some g \<Rightarrow> player_of s g \<noteq> p)"
    by (simp add: pawn_takes_def)
  ultimately show ?case using c by (cases c) simp_all
qed

lemma pawn_takes_cong:
  "cells s' = cells s \<Longrightarrow> player_of s' = player_of s \<Longrightarrow> pawn_takes s' = pawn_takes s"
  by (intro ext) (simp add: pawn_takes_def get_figure_def cong: sum.case_cong option.case_cong)

lemma oblique_filter_cong:
  "cells s' = cells s \<Longrightarrow> player_of s' = player_of s
   \<Longrightarrow> oblique_filter s' p om = oblique_filter s p om"
  by (induction om) (simp_all add: get_figure_def cong: sum.case_cong option.case_cong)

lemma on_table_bounds:
  assumes "rect s" "k \<in> set (scan (cells s))"
  shows "0 \<le> fst (loc s k) \<and> fst (loc s k) < rows s \<and> 0 \<le> snd (loc s k) \<and> snd (loc s k) < columns s"
proof -
  from loc_occupant [OF assms(2)] have *: "0 \<le> fst (loc s k)" "nat (fst (loc s k)) < length (cells s)"
    "0 \<le> snd (loc s k)" "nat (snd (loc s k)) < length (cells s ! nat (fst (loc s k)))"
    by (auto simp: occupant_def split: if_splits)
  from rect_row_length [OF assms(1) *(2)] * assms(1) show ?thesis
    by (simp add: rect_def)
qed

lemma clip_cong: "rows s' = rows s \<Longrightarrow> columns s' = columns s \<Longrightarrow> clip s' = clip s"
  by (intro ext) (simp add: clip_def)

lemma pawn_oblique_readable:
  assumes "rect s" "k \<in> set (scan (cells s))" "i \<in> set (clip s (pawn_oblique up (loc s k)))"
  shows "\<exists>c. get_figure s i = Inr c"
proof -
  from on_table_bounds [OF assms(1,2)] assms(3) show ?thesis
    by (intro get_figure_ok [OF assms(1)]) (auto simp: clip_def pawn_oblique_def split: if_splits)
qed

lemma Pawn_cruns:
  assumes "rect s0" "k \<in> set (scan (cells s0))"
  shows "cruns s0 k (Pawn_compute k) (pawn_p s0 k)"
proof -
  let ?up = "goes_up (players s0 (player_of s0 k))"
  let ?fm = "first_move (figs s0 k)"
  let ?sm = "clip s0 (pawn_straight ?up ?fm (loc s0 k))"
  let ?om = "clip s0 (pawn_oblique ?up (loc s0 k))"
  have up: "goes_up (players s (player_of s k)) = ?up" if "pfill s0 s" for s
    by (simp add: pfillD [OF that])
  have fm: "first_move (figs s k) = ?fm" if "pfill s0 s" for s
    by (simp add: pfillD [OF that])
  have cl: "clip s ms = clip s0 ms" if "pfill s0 s" for s ms
    using clip_cong [of s s0] by (simp add: pfillD [OF that])
  have ob: "oblique_filter s (player_of s k) ?om = Inr (filter (pawn_takes s0 (player_of s0 k)) ?om)"
    if "pfill s0 s" for s
  proof -
    have eq: "cells s = cells s0" "player_of s = player_of s0"
      by (simp_all add: pfillD [OF that])
    have "oblique_filter s0 (player_of s0 k) ?om = Inr (filter (pawn_takes s0 (player_of s0 k)) ?om)"
      by (rule oblique_filter_ok) (rule pawn_oblique_readable [OF assms])
    with oblique_filter_cong [OF eq, of "player_of s0 k" ?om] eq(2) show ?thesis by simp
  qed
  show ?thesis
    unfolding Pawn_compute_def
    apply (rule cruns_bind [OF aruns_position [OF assms(2)]])
    apply (rule cruns_bind [OF aruns_figures])
    apply (rule cruns_bind_gets [where v = ?up])
     apply (erule up)
    apply (rule cruns_bind_gets [where v = ?fm])
     apply (erule fm)
    apply (rule cruns_bind_gets [where v = ?sm])
     apply (erule cl)
    apply (rule cruns_bind_gets [where v = ?om])
     apply (erule cl)
    apply (rule cruns_bind [OF aruns_remove_positions])
     apply (rule subset_refl)
    apply (rule cruns_bind_lift [where v = "filter (pawn_takes s0 (player_of s0 k)) ?om"])
     apply (erule ob)
    apply (rule cruns_final)
    apply (simp only: pawn_p_def)
    done
qed

lemma available_moves_cached:
  "f_available_moves (figs s k) = Some V \<Longrightarrow> available_moves k s = (Inr V, s)"
  by (simp add: available_moves_def Pawn_available_moves_def Rook_available_moves_def
      Bishop_available_moves_def Queen_available_moves_def Knight_available_moves_def
      King_available_moves_def validate_moves_def return_def split: kind.splits)

lemma available_moves_computes:
  assumes "coherent s" "k \<in> set (scan (cells s))" "f_available_moves (figs s k) = None"
    and "kind (figs s k) = Pawn \<Longrightarrow> rect s"
  shows "computes s k (available_moves k) (legal s k)"
proof (cases "kind (figs s k)")
  case Pawn
  with assms cruns_computes [OF Pawn_cruns [of s k]] show ?thesis
    by (simp add: computes_def available_moves_def Pawn_available_moves_def legal_def)
next
  case Rook
  with assms Rook_computes [of s k] show ?thesis
    by (simp add: computes_def available_moves_def Rook_available_moves_def legal_def)
next
  case Bishop
  with assms Bishop_computes [of s k] show ?thesis
    by (simp add: computes_def available_moves_def Bishop_available_moves_def legal_def)
next
  case Queen
  with assms Queen_computes [of s k] show ?thesis
    by (simp add: computes_def available_moves_def Queen_available_moves_def legal_def)
next
  case Knight
  with assms cruns_computes [OF validate_cruns [of k s knight_offsets]] show ?thesis
    by (simp add: computes_def available_moves_def Knight_available_moves_def validate_moves_def
        legal_def)
next
  case King
  with assms cruns_computes [OF validate_cruns [of k s king_offsets]] show ?thesis
    by (simp add: computes_def available_moves_def King_available_moves_def validate_moves_def
        legal_def)
qed

lemma as_kind_fields [simp]:
  "cells (as_kind kd k s) = cells s"
  "rows (as_kind kd k s) = rows s"
  "columns (as_kind kd k s) = columns s"
  "t_figures (as_kind kd k s) = t_figures s"
  "player_of (as_kind kd k s) = player_of s"
  "kind (figs (as_kind kd k s) k) = kd"
  "f_position (figs (as_kind kd k s) f) = f_position (figs s f)"
  "f_available_moves (figs (as_kind kd k s) f) = f_available_moves (figs s f)"
  by (auto simp: as_kind_def player_of_def)

lemma coherent_as_kind [simp]: "coherent (as_kind kd k s) = coherent s"
  by (simp add: coherent_def cong: option.case_cong)

lemma computesD: "computes s k c V \<Longrightarrow> fst (c s) = Inr V"
  by (auto simp: computes_def)

lemma rook_table_coherent: "coherent rook_table"
  by code_simp

lemma rook_table_on: "0 \<in> set (scan (cells rook_table))"
  by code_simp

lemma rook_table_fresh: "f_available_moves (figs rook_table 0) = None"
  by code_simp

lemma locate_loc: "locate (cells s) k = Some q \<Longrightarrow> loc s k = q"
  by (simp add: loc_def)

lemma locate_scan: "locate (cells s) k = Some q \<Longrightarrow> k \<in> set (scan (cells s))"
  using locate_None [of "cells s" k] by auto




























lemma fold_remove1_set: "distinct sm \<Longrightarrow> set (fold remove1 qs sm) = set sm - set qs"
proof (induction qs arbitrary: sm)
  case Nil
  then show ?case by simp
next
  case (Cons q qs)
  from Cons.prems have "distinct (remove1 q sm)" by simp
  from Cons.IH [OF this] Cons.prems show ?case by (auto simp: set_remove1_eq)
qed

lemma distinct_pawn_straight: "distinct (pawn_straight up fm cp)"
  by (simp add: pawn_straight_def)

lemma pawn_straight_part:
  "set (fold remove1 (map (loc s) (scan (cells s))) (clip s (pawn_straight up fm cp)))
   = {q \<in> set (pawn_straight up fm cp). fst q < rows s \<and> snd q < columns s
        \<and> q \<notin> loc s ` set (scan (cells s))}"
proof -
  have "distinct (clip s (pawn_straight up fm cp))"
    unfolding clip_def using distinct_pawn_straight by (rule distinct_filter)
  from fold_remove1_set [OF this] show ?thesis by (auto simp: clip_def)
qed





lemma pawn_straight_mono: "set (pawn_straight up fm cp) \<subseteq> set (pawn_straight up True cp)"
  by (auto simp: pawn_straight_def)

lemma pawn_run:
  assumes "rect s" "coherent s" "kind (figs s k) = Pawn" "f_available_moves (figs s k) = None"
    "locate (cells s) k = Some cp"
  shows "\<exists>s'. available_moves k s = (Inr (pawn_p s k), s')" and "loc s k = cp"
    and "k \<in> set (scan (cells s))"
proof -
  show on: "k \<in> set (scan (cells s))" and "loc s k = cp"
    using assms(5) by (simp_all add: locate_scan locate_loc)
  from available_moves_computes [OF assms(2) on assms(4)] assms(1,3)
  show "\<exists>s'. available_moves k s = (Inr (pawn_p s k), s')"
    by (auto simp: computes_def legal_def)
qed



lemma pawn_edge_table_facts:
  "rect pawn_edge_table" "coherent pawn_edge_table" "kind (figs pawn_edge_table 0) = Pawn"
  "f_available_moves (figs pawn_edge_table 0) = None"
  "locate (cells pawn_edge_table) 0 = Some (0, 3)"
  "goes_up (players pawn_edge_table (player_of pawn_edge_table 0))"
  by code_simp+

lemma pawn_edge_table_alone: "scan (cells pawn_edge_table) = [0]"
  by code_simp

lemma raises_bind: "raises E c \<Longrightarrow> (\<And>x. raises E (f x)) \<Longrightarrow> raises E (bind c f)"
  unfolding raises_def by (auto simp: bind_eq_Inl) blast+

lemma raises_return: "raises E (return x)"
  and raises_gets: "raises E (gets g)"
  and raises_modify: "raises E (modify h)"
  by (simp_all add: raises_def return_def gets_def modify_def)

lemma raises_raise: "e \<in> E \<Longrightarrow> raises E (raise e)"
  by (simp add: raises_def raise_def)

lemma raises_position: "MissingFigure \<in> E \<Longrightarrow> raises E (position f)"
  by (auto simp: raises_def position_def get_figure_position_def split: option.splits)

lemma raises_figures: "raises E figures"
  by (auto simp: raises_def figures_def split: option.splits)

lemma raises_positions: "MissingFigure \<in> E \<Longrightarrow> raises E (positions t)"
  by (induction t) (auto intro!: raises_bind raises_return raises_position)

lemma raises_cut_before: "MissingFigure \<in> E \<Longrightarrow> raises E (cut_before f t p)"
  by (induction t arbitrary: f) (auto intro!: raises_bind raises_return raises_position raises_gets)

lemma raises_cut_after: "MissingFigure \<in> E \<Longrightarrow> raises E (cut_after f t p)"
  by (induction t arbitrary: f) (auto intro!: raises_bind raises_return raises_position raises_gets)

lemma raises_remove_positions: "MissingFigure \<in> E \<Longrightarrow> raises E (remove_positions t sm)"
  by (induction t arbitrary: sm) (auto intro!: raises_bind raises_return raises_position)

lemma raises_player_figures: "raises E (player_figures p)"
  unfolding player_figures_def
  by (auto intro!: raises_bind raises_return raises_figures raises_gets split: option.splits)

lemma raises_straight_moves: "MissingFigure \<in> E \<Longrightarrow> raises E (straight_moves k)"
  unfolding straight_moves_def
  by (intro raises_bind raises_return raises_figures raises_gets raises_position raises_cut_before
      raises_cut_after)

lemma raises_oblique_moves: "MissingFigure \<in> E \<Longrightarrow> raises E (oblique_moves k)"
  unfolding oblique_moves_def
  by (intro raises_bind raises_return raises_figures raises_gets raises_position raises_cut_after)

lemma py_index_error: "py_index xs i = Inl e \<Longrightarrow> e = IndexError"
  by (auto simp: py_index_def split: option.splits)

lemma get_figure_error: "get_figure s q = Inl e \<Longrightarrow> e = IndexError"
  by (auto simp: get_figure_def split: sum.splits dest: py_index_error)

lemma oblique_filter_error: "oblique_filter s p om = Inl e \<Longrightarrow> e = IndexError"
  by (induction om) (auto split: sum.splits dest: get_figure_error)

lemma raises_oblique_filter:
  "IndexError \<in> E \<Longrightarrow> raises E (lift (\<lambda>s. oblique_filter s (h s) om))"
  by (auto simp: raises_def lift_def dest: oblique_filter_error)

lemma raises_split4:
  "(\<And>a b c d. raises E (f a b c d)) \<Longrightarrow> raises E (case x of (a, b, c, d) \<Rightarrow> f a b c d)"
  by (cases x) simp

lemma raises_available_moves:
  assumes "MissingFigure \<in> E" "IndexError \<in> E"
  shows "raises E (available_moves k)"
proof -
  note intros = raises_bind raises_return raises_figures raises_gets raises_modify
    raises_position [OF assms(1)] raises_positions [OF assms(1)]
    raises_remove_positions [OF assms(1)] raises_oblique_filter [OF assms(2)]
    raises_straight_moves [OF assms(1)] raises_oblique_moves [OF assms(1)] raises_split4
  have "raises E (Pawn_compute k)" unfolding Pawn_compute_def by (intro intros)
  moreover have "raises E (Rook_compute k)" unfolding Rook_compute_def by (intro intros)
  moreover have "raises E (Bishop_compute k)" unfolding Bishop_compute_def by (intro intros)
  moreover have "raises E (Queen_compute k)" unfolding Queen_compute_def by (intro intros)
  moreover have "raises E (validate_compute k moves)" for moves
    unfolding validate_compute_def by (intro intros)
  ultimately show ?thesis
    unfolding available_moves_def Pawn_available_moves_def Rook_available_moves_def
      Bishop_available_moves_def Queen_available_moves_def Knight_available_moves_def
      King_available_moves_def validate_moves_def
    by (auto intro!: raises_bind raises_gets raises_return split: kind.splits option.splits)
qed

lemma raises_set_figure': "IndexError \<in> E \<Longrightarrow> raises E (set_figure fg q)"
  by (auto simp: raises_def dest: raises_set_figure)

lemma raises_reset: "raises E (reset k)"
  by (simp add: reset_def raises_modify)

lemma raises_player_reset: "raises E (player_reset p)"
  unfolding player_reset_def table_reset_def by (intro raises_bind raises_modify)

lemma raises_move:
  assumes "MissingFigure \<in> E" "IndexError \<in> E" "InvalidMove \<in> E"
  shows "raises E (move k to)"
proof -
  note intros = raises_bind raises_return raises_gets raises_modify raises_reset raises_player_reset
    raises_position [OF assms(1)] raises_available_moves [OF assms(1,2)]
    raises_set_figure' [OF assms(2)] raises_raise [OF assms(3)]
  have fm: "raises E (Figure_move k to)"
    unfolding Figure_move_def move_validity_def
    by (intro raises_bind raises_return raises_available_moves [OF assms(1,2)])
      (auto intro!: intros)
  then have "raises E (Pawn_move k to)"
    unfolding Pawn_move_def by (intro intros)
  with fm show ?thesis
    unfolding move_def by (auto intro!: raises_bind raises_gets)
qed

lemma move_not_AccessError: "fst (move k to s) \<noteq> Inl AccessError"
proof
  assume "fst (move k to s) = Inl AccessError"
  then have "move k to s = (Inl AccessError, snd (move k to s))" by (simp add: prod_eq_iff)
  with raises_move [of "{InvalidMove, MissingFigure, IndexError}" k to] show False
    by (auto simp: raises_def)
qed

lemma always_raises:
  assumes "raises {e} c"
  shows "fst (bind c (\<lambda>_. raise e) s) = Inl e"
proof -
  obtain r s' where cs: "c s = (r, s')" by (cases "c s")
  show ?thesis
  proof (cases r)
    case (Inl e')
    with cs assms have "e' = e" by (auto simp: raises_def)
    with cs Inl show ?thesis by (simp add: bind_Inl)
  next
    case (Inr x)
    with cs show ?thesis by (simp add: bind_Inr raise_def)
  qed
qed

lemma Player_move_empty:
  assumes "get_figure s from = Inr None"
  shows "fst (Player_move p from to s) = Inl MissingFigure"
proof -
  have r: "raises {MissingFigure} (bind (player_figures p) (\<lambda>fs. positions fs))"
    by (intro raises_bind raises_player_figures raises_positions) simp
  have "bind (player_figures p) (\<lambda>fs. bind (positions fs) (\<lambda>_. raise MissingFigure :: unit m)) s
      = bind (bind (player_figures p) (\<lambda>fs. positions fs)) (\<lambda>_. raise MissingFigure) s"
    by (simp add: bind_def split: prod.splits sum.splits)
  moreover have "fst (bind (bind (player_figures p) (\<lambda>fs. positions fs))
      (\<lambda>_. raise MissingFigure :: unit m) s) = Inl MissingFigure"
    by (rule always_raises [OF r])
  ultimately show ?thesis using assms
    by (simp add: Player_move_def bind_lift)
qed

lemma Player_move_other:
  assumes "get_figure s from = Inr (Some f)" "player_of s f \<noteq> p"
  shows "Player_move p from to s = (Inl AccessError, s)"
  using assms by (simp add: Player_move_def bind_lift raise_def)

lemma Player_move_own:
  assumes "get_figure s from = Inr (Some f)" "player_of s f = p"
  shows "Player_move p from to s = move f to s"
  using assms by (simp add: Player_move_def bind_lift)

lemma py_index_mem: "py_index xs i = Inr x \<Longrightarrow> x \<in> set xs"
  by (auto simp: py_index_def py_norm_def split: option.splits if_splits)

lemma get_figure_scan: "get_figure s q = Inr (Some f) \<Longrightarrow> f \<in> set (scan (cells s))"
proof -
  assume a: "get_figure s q = Inr (Some f)"
  then obtain row where "py_index (cells s) (fst q) = Inr row" "py_index row (snd q) = Inr (Some f)"
    by (auto simp: get_figure_def split: sum.splits)
  then have "row \<in> set (cells s)" "Some f \<in> set row" by (auto dest: py_index_mem)
  then show ?thesis by (auto simp: scan_def set_map_filter_id)
qed

lemma available_moves_total:
  assumes "coherent s" "k \<in> set (scan (cells s))" "kind (figs s k) = Pawn \<Longrightarrow> rect s"
  shows "\<exists>mv s1. available_moves k s = (Inr mv, s1) \<and> coherent s1 \<and> cells s1 = cells s
           \<and> f_available_moves (figs s1 k) = Some mv"
proof (cases "f_available_moves (figs s k)")
  case None
  from available_moves_computes [OF assms(1,2) None assms(3)]
  obtain s1 where "available_moves k s = (Inr (legal s k), set_available_moves k (Some (legal s k)) s1)"
    "pfill s s1" "coherent s1"
    by (auto simp: computes_def)
  then show ?thesis by (auto simp: pfill_cells)
next
  case (Some mv)
  with available_moves_cached [OF Some] assms(1) show ?thesis by simp
qed

lemma raises_after_validity:
  "raises {IndexError}
     (bind (set_figure None q) (\<lambda>_.
      bind (reset k) (\<lambda>_.
      bind (set_figure (Some k) to) (\<lambda>_.
      bind (gets (\<lambda>s. player_of s k)) (\<lambda>pl. player_reset pl)))))"
  by (intro raises_bind raises_set_figure' raises_reset raises_gets raises_player_reset) simp_all

lemma Figure_move_not_missing:
  assumes "coherent s" "k \<in> set (scan (cells s))" "kind (figs s k) = Pawn \<Longrightarrow> rect s"
  shows "fst (Figure_move k to s) \<noteq> Inl MissingFigure"
proof -
  from available_moves_total [OF assms] obtain mv s1 where
    av: "available_moves k s = (Inr mv, s1)" and s1: "coherent s1" "cells s1 = cells s"
    "f_available_moves (figs s1 k) = Some mv" by blast
  from runs_position_loc [OF s1(1), of k] assms(2) s1(2)
  obtain s2 where po: "position k s1 = (Inr (loc s1 k), s2)" and s2: "pfill s1 s2"
    by (auto simp: runs_def)
  from s2 s1(3) have c2: "f_available_moves (figs s2 k) = Some mv" by (simp add: pfill_available_moves)
  from av have mvl: "move_validity k to s = (Inr (to \<in> mv), s1)"
    by (simp add: move_validity_def bind_Inr return_def)
  show ?thesis
  proof (cases "to \<in> mv")
    case False
    with mvl po available_moves_cached [OF c2] have "Figure_move k to s = (Inl InvalidMove, s2)"
      by (simp add: Figure_move_def bind_Inr raise_def)
    then show ?thesis by simp
  next
    case True
    let ?C = "bind (set_figure None (loc s1 k)) (\<lambda>_.
      bind (reset k) (\<lambda>_.
      bind (set_figure (Some k) to) (\<lambda>_.
      bind (gets (\<lambda>s. player_of s k)) (\<lambda>pl. player_reset pl))))"
    from True mvl po have eq: "Figure_move k to s = ?C s2"
      by (simp add: Figure_move_def bind_Inr)
    show ?thesis
    proof
      assume "fst (Figure_move k to s) = Inl MissingFigure"
      with eq have "?C s2 = (Inl MissingFigure, snd (?C s2))" by (simp add: prod_eq_iff)
      with raises_after_validity [of "loc s1 k" k to] show False
        unfolding raises_def by blast
    qed
  qed
qed

lemma move_not_missing:
  assumes "coherent s" "k \<in> set (scan (cells s))" "rect s"
  shows "fst (move k to s) \<noteq> Inl MissingFigure"
proof -
  have fm: "fst (Figure_move k to s) \<noteq> Inl MissingFigure"
    using assms by (intro Figure_move_not_missing) simp_all
  have "fst (Pawn_move k to s) \<noteq> Inl MissingFigure"
  proof
    assume "fst (Pawn_move k to s) = Inl MissingFigure"
    then have "Pawn_move k to s = (Inl MissingFigure, snd (Pawn_move k to s))"
      by (simp add: prod_eq_iff)
    then have "Figure_move k to s = (Inl MissingFigure, snd (Pawn_move k to s))"
      unfolding Pawn_move_def
      by (auto simp: bind_eq_Inl modify_def dest: raises_set_figure)
    with fm show False by simp
  qed
  with fm show ?thesis by (simp add: move_def)
qed

lemma rook_table_squares:
  "get_figure rook_table (0, 0) = Inr None"
  "get_figure rook_table (4, 4) = Inr (Some 1)" "player_of rook_table 1 \<noteq> 0"
  "get_figure rook_table (4, 1) = Inr (Some 0)" "player_of rook_table 0 = 0"
  "fst (move 0 (4, 2) rook_table) = Inr ()"
  by code_simp+

section \<open>Properties\<close>

subsection \<open>Construction of the table\<close>

text \<open>
  Claim C8. A table constructed with \<open>rows\<close> and \<open>columns\<close> should have \<open>rows\<close> rows of
  \<open>columns\<close> cells. The constructor swaps the two ranges: constructed with 2 rows and
  3 columns, the table has 3 rows of 2 cells each (all of them empty).
\<close>

theorem Table_2_3_shape:
  "cells (Table 2 3) = [[None, None], [None, None], [None, None]]
   \<and> length (cells (Table 2 3)) = 3 \<and> length (cells (Table 2 3)) \<noteq> nat (rows (Table 2 3))
   \<and> list_all (\<lambda>row. length row = 2 \<and> length row \<noteq> nat (columns (Table 2 3))) (cells (Table 2 3))"
  by (simp add: Table_def numeral_3_eq_3 numeral_2_eq_2)

subsection \<open>Assigning an owner\<close>

text \<open>
  Claim C9. \<^verbatim>\<open>Player.add_figure\<close> never returns normally: whatever the stack bound, the
  setter ends in RecursionError with the state (and so the stored owner) untouched, and
  without a bound it does not return at all.
\<close>

lemma player_setter_raises: "player_setter d f p s = (Inl RecursionError, s)"
  by (induction d) (simp_all add: raise_def)

lemma player_setter_unbounded_not_Some: "player_setter_unbounded f p s = Some y \<Longrightarrow> False"
  by (rule player_setter_unbounded.raw_induct [where P = "\<lambda>_ _ _ _. False"])

lemma player_setter_unbounded_None: "player_setter_unbounded f p s = None"
  using player_setter_unbounded_not_Some by (cases "player_setter_unbounded f p s") auto

theorem add_figure_never_returns:
  "add_figure d p f s = (Inl RecursionError, s)
   \<and> player_of (snd (add_figure d p f s)) f = player_of s f
   \<and> add_figure_unbounded p f s = None"
  by (simp add: add_figure_def add_figure_unbounded_def player_setter_raises
      player_setter_unbounded_None)


subsection \<open>Failed moves\<close>

text \<open>
  Claim C1 says that a move request that raises leaves the table, the positions and all
  caches exactly as they were. The caches are lazy: the legality check itself fills the
  table's figure list, the position of every figure it meets and the legal moves of the
  moving figure. On \<open>rook_table\<close> (all caches empty) the rook at (4, 1) is asked to move to
  (5, 5): the request raises InvalidMove and three caches have changed.
\<close>

theorem move_failure_changes_caches:
  "fst (move 0 (5, 5) rook_table) = Inl InvalidMove
   \<and> t_figures rook_table = None
   \<and> t_figures (snd (move 0 (5, 5) rook_table)) = Some [0, 1, 2]
   \<and> f_position (figs rook_table 0) = None
   \<and> f_position (figs (snd (move 0 (5, 5) rook_table)) 0) = Some (4, 1)
   \<and> f_available_moves (figs rook_table 0) = None
   \<and> f_available_moves (figs (snd (move 0 (5, 5) rook_table)) 0) \<noteq> None
   \<and> snd (move 0 (5, 5) rook_table) \<noteq> rook_table"
proof -
  have 1: "fst (move 0 (5, 5) rook_table) = Inl InvalidMove" by code_simp
  have 2: "t_figures rook_table = None" by code_simp
  have 3: "t_figures (snd (move 0 (5, 5) rook_table)) = Some [0, 1, 2]" by code_simp
  have 4: "f_position (figs rook_table 0) = None" by code_simp
  have 5: "f_position (figs (snd (move 0 (5, 5) rook_table)) 0) = Some (4, 1)" by code_simp
  have 6: "f_available_moves (figs rook_table 0) = None" by code_simp
  have 7: "f_available_moves (figs (snd (move 0 (5, 5) rook_table)) 0) \<noteq> None" by code_simp
  from 2 3 have 8: "snd (move 0 (5, 5) rook_table) \<noteq> rook_table" by auto
  from 1 2 3 4 5 6 7 8 show ?thesis by blast
qed

text \<open>
  Claim C1, amended. When a move request raises InvalidMove or MissingFigure, the cells
  of the table, its dimensions, the players and every figure's class, owner and
  first-move flag are exactly as before, and every cache that held a value before the
  call still holds that value (\<open>fills\<close>): the only change is that empty caches may have
  been filled.
\<close>

theorem move_failure_only_fills_caches:
  assumes "fst (move k to s) = Inl e" and "e \<in> {InvalidMove, MissingFigure}"
  shows "fills s (snd (move k to s))"
proof -
  from assms(1) have "move k to s = (Inl e, snd (move k to s))" by (simp add: prod_eq_iff)
  moreover from assms(2) have "e \<noteq> IndexError" by auto
  ultimately show ?thesis by (rule move_error)
qed

theorem move_failure_only_fills_caches_witness:
  "fst (move 0 (5, 5) rook_table) = Inl InvalidMove
   \<and> InvalidMove \<in> {InvalidMove, MissingFigure}
   \<and> fills rook_table (snd (move 0 (5, 5) rook_table))"
proof -
  have 1: "fst (move 0 (5, 5) rook_table) = Inl InvalidMove" by code_simp
  have 2: "InvalidMove \<in> {InvalidMove, MissingFigure}" by simp
  from move_failure_only_fills_caches [OF 1 2] 1 2 show ?thesis by blast
qed

text \<open>
  The bounds check of \<^verbatim>\<open>Knight._validate_moves\<close> accepts the row \<open>rows\<close> itself. A knight
  at (6, 1) of the 8 by 8 table therefore has (8, 2) among its legal moves; moving there
  clears the knight's cell and then raises IndexError, and the knight is on the table no
  more.
\<close>

lemma Knight_move_off_table:
  "(8, 2) \<in> (case fst (available_moves 0 knight_table) of Inr mv \<Rightarrow> mv | Inl e \<Rightarrow> {})
   \<and> fst (move 0 (8, 2) knight_table) = Inl IndexError
   \<and> scan (cells knight_table) = [0]
   \<and> scan (cells (snd (move 0 (8, 2) knight_table))) = []"
proof -
  have 1: "(8, 2) \<in> (case fst (available_moves 0 knight_table) of Inr mv \<Rightarrow> mv | Inl e \<Rightarrow> {})"
    by code_simp
  have 2: "fst (move 0 (8, 2) knight_table) = Inl IndexError" by code_simp
  have 3: "scan (cells knight_table) = [0]" by code_simp
  have 4: "scan (cells (snd (move 0 (8, 2) knight_table))) = []" by code_simp
  from 1 2 3 4 show ?thesis by blast
qed

subsection \<open>Queen, Rook and Bishop\<close>

text \<open>
  Claim C6. On every table whose position caches and figure list are not stale, for
  every figure \<open>k\<close> standing on the table whose legal moves are not yet cached: the legal
  moves computed for \<open>k\<close> as a Queen are the union of those computed for it as a Rook and
  as a Bishop (same cell, same owner, same table); all three computations return.
\<close>

theorem Queen_is_Rook_union_Bishop:
  assumes "coherent s" and "k \<in> set (scan (cells s))" and "f_available_moves (figs s k) = None"
  shows "\<exists>a b. fst (available_moves k (as_kind Rook k s)) = Inr a
            \<and> fst (available_moves k (as_kind Bishop k s)) = Inr b
            \<and> fst (available_moves k (as_kind Queen k s)) = Inr (a \<union> b)"
proof -
  have c: "computes (as_kind kd k s) k (available_moves k) (legal (as_kind kd k s) k)"
    if "kd \<noteq> Pawn" for kd
    using assms that by (intro available_moves_computes) simp_all
  have st: "straight_p (as_kind kd k s) k = straight_p s k" for kd
    by (rule straight_p_cong) simp_all
  have ob: "oblique_p (as_kind kd k s) k = oblique_p s k" for kd
    by (rule oblique_p_cong) simp_all
  have "fst (available_moves k (as_kind Rook k s)) = Inr (set4 (straight_p s k))"
    using computesD [OF c [of Rook]] by (simp add: legal_def st)
  moreover have "fst (available_moves k (as_kind Bishop k s)) = Inr (set4 (oblique_p s k))"
    using computesD [OF c [of Bishop]] by (simp add: legal_def ob)
  moreover have "fst (available_moves k (as_kind Queen k s))
      = Inr (set4 (straight_p s k) \<union> set4 (oblique_p s k))"
    using computesD [OF c [of Queen]] by (simp add: legal_def st ob)
  ultimately show ?thesis by blast
qed

theorem Queen_is_Rook_union_Bishop_witness:
  "coherent rook_table \<and> 0 \<in> set (scan (cells rook_table))
   \<and> f_available_moves (figs rook_table 0) = None
   \<and> (\<exists>a b. fst (available_moves 0 (as_kind Rook 0 rook_table)) = Inr a
            \<and> fst (available_moves 0 (as_kind Bishop 0 rook_table)) = Inr b
            \<and> fst (available_moves 0 (as_kind Queen 0 rook_table)) = Inr (a \<union> b))"
  using Queen_is_Rook_union_Bishop [OF rook_table_coherent rook_table_on rook_table_fresh]
    rook_table_coherent rook_table_on rook_table_fresh
  by blast

subsection \<open>Knight and King\<close>



subsection \<open>Rook: truncation of a ray\<close>



subsection \<open>Pawn\<close>



text \<open>
  For a candidate with column \<open>-1\<close> the cell read is the last cell of the row: a pawn at
  (3, 0) with an opponent at (2, 7) has the candidate (2, -1) among its legal moves.
\<close>

lemma Pawn_oblique_reads_far_end:
  "locate (cells pawn_wrap_table) 0 = Some (3, 0)
   \<and> \<not> on_table pawn_wrap_table (2, - 1)
   \<and> get_figure pawn_wrap_table (2, - 1) = Inr (Some 1)
   \<and> fst (available_moves 0 pawn_wrap_table) = Inr {(2, 0), (1, 0), (2, - 1)}"
proof -
  have 1: "locate (cells pawn_wrap_table) 0 = Some (3, 0)" by code_simp
  have 2: "\<not> on_table pawn_wrap_table (2, - 1)" by code_simp
  have 3: "get_figure pawn_wrap_table (2, - 1) = Inr (Some 1)" by code_simp
  have 4: "fst (available_moves 0 pawn_wrap_table) = Inr {(2, 0), (1, 0), (2, - 1)}" by code_simp
  from 1 2 3 4 show ?thesis by blast
qed

text \<open>
  Claim C10. The edge filter of the pawn keeps exactly the candidates whose row is below
  \<open>rows\<close> and whose column is below \<open>columns\<close>; it never discards a negative coordinate.
  For a pawn of a player going up that stands on row 0 (whatever else is on the table),
  the candidate \<open>(-1, c)\<close> is a legal move.
\<close>

theorem Pawn_keeps_negative_row:
  assumes "rect s" and "coherent s" and "kind (figs s k) = Pawn"
    and "f_available_moves (figs s k) = None" and "locate (cells s) k = Some (0, c)"
    and "goes_up (players s (player_of s k))"
  shows "(\<exists>mv s'. available_moves k s = (Inr mv, s') \<and> (- 1, c) \<in> mv)
      \<and> set (clip s ms) = {i \<in> set ms. fst i < rows s \<and> snd i < columns s}"
proof -
  let ?fm = "first_move (figs s k)"
  from pawn_run [OF assms(1-5)] obtain s' where
    run: "available_moves k s = (Inr (pawn_p s k), s')" and l: "loc s k = (0, c)"
    and on: "k \<in> set (scan (cells s))" by blast
  from on_table_bounds [OF assms(1) on] l have bd: "0 < rows s" "c < columns s" by simp_all
  have "(- 1, c) \<notin> loc s ` set (scan (cells s))"
  proof
    assume "(- 1, c) \<in> loc s ` set (scan (cells s))"
    then obtain g where "g \<in> set (scan (cells s))" "loc s g = (- 1, c)" by auto
    with scan_occupant [of g "cells s"] locate_nonneg [of "cells s" g "(- 1, c)"]
    show False by (auto simp: loc_def)
  qed
  moreover have "(- 1, c) \<in> set (pawn_straight True ?fm (0, c))"
    by (simp add: pawn_straight_def)
  ultimately have "(- 1, c) \<in> pawn_p s k"
    using bd assms(6) unfolding pawn_p_def l Un_iff pawn_straight_part by simp
  with run show ?thesis by (auto simp: clip_def)
qed

theorem Pawn_keeps_negative_row_witness:
  "rect pawn_edge_table \<and> coherent pawn_edge_table \<and> kind (figs pawn_edge_table 0) = Pawn
   \<and> f_available_moves (figs pawn_edge_table 0) = None
   \<and> locate (cells pawn_edge_table) 0 = Some (0, 3)
   \<and> goes_up (players pawn_edge_table (player_of pawn_edge_table 0))
   \<and> scan (cells pawn_edge_table) = [0]
   \<and> (\<exists>mv s'. available_moves 0 pawn_edge_table = (Inr mv, s') \<and> (- 1, 3) \<in> mv)"
  using Pawn_keeps_negative_row [OF pawn_edge_table_facts] pawn_edge_table_facts
    pawn_edge_table_alone
  by blast

subsection \<open>The move request of a player\<close>

text \<open>
  Claim C7. For every player \<open>p\<close> and every pair of positions where the cell at \<open>from\<close>
  can be read (\<open>c\<close> is its content): an empty cell gives MissingFigure; a figure of
  another player gives AccessError with the state untouched; a figure of \<open>p\<close> gives
  exactly what the figure's own \<open>move\<close> gives. AccessError is raised in no other case,
  since \<open>move\<close> never raises it. MissingFigure is raised in no other case when the table is
  rectangular and the caches are not stale (a stale figure list could make the
  figure's own \<open>move\<close> raise it).
\<close>

theorem Player_move_cases:
  assumes "get_figure s from = Inr c"
  shows "(c = None \<longrightarrow> fst (Player_move p from to s) = Inl MissingFigure)
     \<and> (\<forall>f. c = Some f \<and> player_of s f \<noteq> p \<longrightarrow> Player_move p from to s = (Inl AccessError, s))
     \<and> (\<forall>f. c = Some f \<and> player_of s f = p \<longrightarrow> Player_move p from to s = move f to s)
     \<and> (fst (Player_move p from to s) = Inl AccessError
          \<longleftrightarrow> (\<exists>f. c = Some f \<and> player_of s f \<noteq> p))
     \<and> (rect s \<and> coherent s \<longrightarrow>
          (fst (Player_move p from to s) = Inl MissingFigure \<longleftrightarrow> c = None))"
proof (cases c)
  case None
  with assms Player_move_empty [of s "from" p to] show ?thesis by simp
next
  case (Some f)
  show ?thesis
  proof (cases "player_of s f = p")
    case True
    with assms Some have eq: "Player_move p from to s = move f to s"
      by (intro Player_move_own) simp_all
    from assms Some have on: "f \<in> set (scan (cells s))" by (intro get_figure_scan) simp
    from eq move_not_AccessError [of f to s] move_not_missing [OF _ on, of to] Some True
    show ?thesis by auto
  next
    case False
    with assms Some have "Player_move p from to s = (Inl AccessError, s)"
      by (intro Player_move_other) simp_all
    with Some False show ?thesis by simp
  qed
qed

theorem Player_move_cases_witness:
  "get_figure rook_table (0, 0) = Inr None
   \<and> fst (Player_move 0 (0, 0) (4, 2) rook_table) = Inl MissingFigure
   \<and> get_figure rook_table (4, 4) = Inr (Some 1) \<and> player_of rook_table 1 \<noteq> 0
   \<and> Player_move 0 (4, 4) (4, 2) rook_table = (Inl AccessError, rook_table)
   \<and> get_figure rook_table (4, 1) = Inr (Some 0) \<and> player_of rook_table 0 = 0
   \<and> Player_move 0 (4, 1) (4, 2) rook_table = move 0 (4, 2) rook_table
   \<and> fst (Player_move 0 (4, 1) (4, 2) rook_table) = Inr ()"
proof -
  from Player_move_cases [OF rook_table_squares(1), of 0 "(4, 2)"]
  have 1: "fst (Player_move 0 (0, 0) (4, 2) rook_table) = Inl MissingFigure" by simp
  from Player_move_cases [OF rook_table_squares(2), of 0 "(4, 2)"] rook_table_squares(3)
  have 2: "Player_move 0 (4, 4) (4, 2) rook_table = (Inl AccessError, rook_table)" by simp
  from Player_move_cases [OF rook_table_squares(4), of 0 "(4, 2)"] rook_table_squares(5)
  have 3: "Player_move 0 (4, 1) (4, 2) rook_table = move 0 (4, 2) rook_table" by simp
  from 1 2 3 rook_table_squares show ?thesis by simp
qed

end
